theory Spec2Isabelle
  imports Complex_Main
begin

section \<open>Prioritized replay buffer and categorical projection\<close>

text \<open>
  A shallow embedding of \<^verbatim>\<open>level_replay/algo/buffer.py\<close> (classes \<^verbatim>\<open>Buffer\<close> and
  \<^verbatim>\<open>SumTree\<close>) and of the categorical projection in \<^verbatim>\<open>Rainbow.train\<close>
  (\<^verbatim>\<open>level_replay/algo/policy.py\<close>).

  Conventions of the model:
  \<^item> Python integers are \<open>int\<close>; NumPy and PyTorch floating-point numbers are modelled by
    exact reals (\<open>real\<close>), so rounding is not part of the model;
  \<^item> an array whose first axis is the slot (or batch) axis is a list of rows;
  \<^item> every exception is a value \<open>Inl e\<close>; a call that raises yields no state;
  \<^item> the arrays returned by the random number generator are arguments of the model.
\<close>

subsection \<open>Exceptions\<close>

datatype error = IndexError | ValueError | ZeroDivisionError | OverflowError | RuntimeError

definition bind_e :: "error + 'a \<Rightarrow> ('a \<Rightarrow> error + 'b) \<Rightarrow> error + 'b" where
  "bind_e m f = (case m of Inl e \<Rightarrow> Inl e | Inr x \<Rightarrow> f x)"

subsection \<open>NumPy indexing, slicing and slice assignment\<close>

text \<open>Integer indexing \<^verbatim>\<open>a[i]\<close>: a negative index counts from the end, anything outside
  \<open>[-n, n)\<close> raises \<^verbatim>\<open>IndexError\<close>.\<close>

definition np_index :: "nat \<Rightarrow> int \<Rightarrow> error + nat" where
  "np_index n i =
     (if 0 \<le> i \<and> i < int n then Inr (nat i)
      else if - int n \<le> i \<and> i < 0 then Inr (nat (int n + i))
      else Inl IndexError)"

definition np_get :: "'a list \<Rightarrow> int \<Rightarrow> error + 'a" where
  "np_get a i = bind_e (np_index (length a) i) (\<lambda>j. Inr (a ! j))"

text \<open>Fancy indexing \<^verbatim>\<open>a[ind]\<close> with an integer array.\<close>

fun np_take :: "'a list \<Rightarrow> int list \<Rightarrow> error + 'a list" where
  "np_take a [] = Inr []"
| "np_take a (i # ind) =
     bind_e (np_get a i) (\<lambda>x. bind_e (np_take a ind) (\<lambda>xs. Inr (x # xs)))"

text \<open>\<^verbatim>\<open>np.add.at(a, i, d)\<close> with a scalar index.\<close>

definition np_add_at1 :: "real list \<Rightarrow> int \<Rightarrow> real \<Rightarrow> error + real list" where
  "np_add_at1 a i d = bind_e (np_index (length a) i) (\<lambda>j. Inr (a[j := a ! j + d]))"

text \<open>\<^verbatim>\<open>np.add.at(a, ind, ds)\<close> with index and value arrays of one length: unbuffered,
  so a repeated index accumulates.\<close>

fun np_add_at :: "real list \<Rightarrow> int list \<Rightarrow> real list \<Rightarrow> error + real list" where
  "np_add_at a [] [] = Inr a"
| "np_add_at a (i # ind) (d # ds) = bind_e (np_add_at1 a i d) (\<lambda>a'. np_add_at a' ind ds)"
| "np_add_at a _ _ = Inl ValueError"

text \<open>The bound of a slice, clipped as Python does: \<^verbatim>\<open>a[:i]\<close>, \<^verbatim>\<open>a[i:]\<close>.\<close>

definition py_clip :: "nat \<Rightarrow> int \<Rightarrow> nat" where
  "py_clip n i = (if i < 0 then nat (max 0 (int n + i)) else min n (nat i))"

definition slice_upto :: "'a list \<Rightarrow> int \<Rightarrow> 'a list" where
  "slice_upto a i = take (py_clip (length a) i) a"

definition slice_from :: "'a list \<Rightarrow> int \<Rightarrow> 'a list" where
  "slice_from a i = drop (py_clip (length a) i) a"

text \<open>Slice assignment \<^verbatim>\<open>a[lo:hi] = v\<close> with \<open>lo\<close>, \<open>hi\<close> already clipped: the value
  must have the slice's length or length 1 (broadcast along the first axis), else NumPy
  raises \<^verbatim>\<open>ValueError\<close>.\<close>

definition np_assign :: "'a list \<Rightarrow> nat \<Rightarrow> nat \<Rightarrow> 'a list \<Rightarrow> error + 'a list" where
  "np_assign a lo hi v =
     (let hi' = max lo hi; m = hi' - lo in
      if length v = m then Inr (take lo a @ v @ drop hi' a)
      else if length v = 1 then Inr (take lo a @ replicate m (hd v) @ drop hi' a)
      else Inl ValueError)"

definition assign_from :: "'a list \<Rightarrow> int \<Rightarrow> 'a list \<Rightarrow> error + 'a list" where
  "assign_from a i v = np_assign a (py_clip (length a) i) (length a) v"

definition assign_upto :: "'a list \<Rightarrow> int \<Rightarrow> 'a list \<Rightarrow> error + 'a list" where
  "assign_upto a j v = np_assign a 0 (py_clip (length a) j) v"

definition assign_range :: "'a list \<Rightarrow> int \<Rightarrow> int \<Rightarrow> 'a list \<Rightarrow> error + 'a list" where
  "assign_range a i j v = np_assign a (py_clip (length a) i) (py_clip (length a) j) v"

subsection \<open>SumTree\<close>

record SumTree =
  nodes :: "real list list"

text \<open>\<^verbatim>\<open>int(np.ceil(np.log2(max_size)))\<close> for \<open>max_size \<ge> 1\<close>: the least \<open>d\<close> with
  \<open>max_size \<le> 2 ^ d\<close>. NumPy computes the logarithm in floating point; the model takes the
  exact value, which is what NumPy returns for every capacity an array in memory can have.\<close>

fun ceil_log2 :: "nat \<Rightarrow> nat" where
  "ceil_log2 n = (if n \<le> 1 then 0 else Suc (ceil_log2 ((n + 1) div 2)))"

declare ceil_log2.simps [simp del]

text \<open>\<^verbatim>\<open>SumTree.__init__\<close>: \<open>ceil_log2 max_size + 1\<close> levels of zeros, level \<open>i\<close> of
  size \<open>2 ^ i\<close>. \<^verbatim>\<open>np.log2(0)\<close> is \<open>-inf\<close> and \<^verbatim>\<open>int(-inf)\<close> raises \<^verbatim>\<open>OverflowError\<close>;
  the logarithm of a negative number is \<open>nan\<close> and \<^verbatim>\<open>int(nan)\<close> raises
  \<^verbatim>\<open>ValueError\<close>.\<close>

definition SumTree_init :: "int \<Rightarrow> error + SumTree" where
  "SumTree_init max_size =
     (if max_size = 0 then Inl OverflowError
      else if max_size < 0 then Inl ValueError
      else Inr \<lparr>nodes = map (\<lambda>i. replicate (2 ^ i) 0) [0 ..< ceil_log2 (nat max_size) + 1]\<rparr>)"

text \<open>The loop \<^verbatim>\<open>for nodes in self.nodes[::-1]\<close> of \<^verbatim>\<open>set\<close>, on the levels from the
  leaves up.\<close>

fun set_levels :: "real list list \<Rightarrow> int \<Rightarrow> real \<Rightarrow> error + real list list" where
  "set_levels [] node_index priority_diff = Inr []"
| "set_levels (level # rest) node_index priority_diff =
     bind_e (np_add_at1 level node_index priority_diff) (\<lambda>level'.
     bind_e (set_levels rest (node_index div 2) priority_diff) (\<lambda>rest'.
     Inr (level' # rest')))"

text \<open>\<^verbatim>\<open>self.nodes[-1]\<close> raises on an empty list of levels.\<close>

definition last_level :: "SumTree \<Rightarrow> error + real list" where
  "last_level self = (if nodes self = [] then Inl IndexError else Inr (last (nodes self)))"

definition SumTree_set :: "SumTree \<Rightarrow> int \<Rightarrow> real \<Rightarrow> error + SumTree" where
  "SumTree_set self node_index new_priority =
     bind_e (last_level self) (\<lambda>leaves.
     bind_e (np_get leaves node_index) (\<lambda>old.
     let priority_diff = new_priority - old in
     bind_e (set_levels (rev (nodes self)) node_index priority_diff) (\<lambda>ls.
     Inr (self\<lparr>nodes := rev ls\<rparr>))))"

text \<open>\<^verbatim>\<open>np.unique(node_index, return_index=True)\<close>: the sorted distinct values and, for
  each, the position of its first occurrence.\<close>

fun first_index :: "int list \<Rightarrow> int \<Rightarrow> nat" where
  "first_index [] v = 0"
| "first_index (x # xs) v = (if x = v then 0 else Suc (first_index xs v))"

definition np_unique :: "int list \<Rightarrow> int list \<times> int list" where
  "np_unique xs =
     (let u = sort (remdups xs) in (u, map (\<lambda>v. int (first_index xs v)) u))"

text \<open>The loop of \<^verbatim>\<open>batch_set\<close>: every level receives all the differences, then the
  whole index array is halved.\<close>

fun batch_set_levels :: "real list list \<Rightarrow> int list \<Rightarrow> real list \<Rightarrow> error + real list list" where
  "batch_set_levels [] node_index priority_diff = Inr []"
| "batch_set_levels (level # rest) node_index priority_diff =
     bind_e (np_add_at level node_index priority_diff) (\<lambda>level'.
     bind_e (batch_set_levels rest (map (\<lambda>i. i div 2) node_index) priority_diff) (\<lambda>rest'.
     Inr (level' # rest')))"

definition SumTree_batch_set :: "SumTree \<Rightarrow> int list \<Rightarrow> real list \<Rightarrow> error + SumTree" where
  "SumTree_batch_set self node_index new_priority =
     (let (node_index', unique_index) = np_unique node_index in
      bind_e (np_take new_priority unique_index) (\<lambda>new.
      bind_e (last_level self) (\<lambda>leaves.
      bind_e (np_take leaves node_index') (\<lambda>old.
      let priority_diff = map2 (\<lambda>x y. x - y) new old in
      bind_e (batch_set_levels (rev (nodes self)) node_index' priority_diff) (\<lambda>ls.
      Inr (self\<lparr>nodes := rev ls\<rparr>))))))"

text \<open>\<^verbatim>\<open>SumTree.sample\<close>. \<open>query_value\<close> is the array that
  \<^verbatim>\<open>np.random.uniform(0, self.nodes[0][0], size=batch_size)\<close> returned; the loop body works
  on whole arrays, element by element.\<close>

fun sample_levels :: "real list list \<Rightarrow> int list \<Rightarrow> real list \<Rightarrow> error + int list" where
  "sample_levels [] node_index query_value = Inr node_index"
| "sample_levels (level # rest) node_index query_value =
     (let node_index2 = map (\<lambda>i. i * 2) node_index in
      bind_e (np_take level node_index2) (\<lambda>left_sum.
      let is_greater = map2 (\<lambda>q l. if q > l then 1 else 0) query_value left_sum;
          node_index3 = map2 (\<lambda>i g. i + g) node_index2 is_greater;
          query_value' = map2 (\<lambda>q (l, g). q - l * real_of_int g) query_value (zip left_sum is_greater)
      in sample_levels rest node_index3 query_value'))"

definition SumTree_sample :: "SumTree \<Rightarrow> real list \<Rightarrow> error + int list" where
  "SumTree_sample self query_value =
     (if nodes self = [] \<or> hd (nodes self) = [] then Inl IndexError
      else sample_levels (tl (nodes self)) (map (\<lambda>_. 0) query_value) query_value)"

subsection \<open>Buffer\<close>

text \<open>The fields of \<^verbatim>\<open>AbstractBuffer\<close> and \<^verbatim>\<open>Buffer\<close>. A row of \<^verbatim>\<open>state\<close> or
  \<^verbatim>\<open>next_state\<close> (an array of shape \<^verbatim>\<open>state_dim\<close>) is a value of type \<open>'s\<close>; a row of
  the other four arrays is one number. \<^verbatim>\<open>size\<close> is \<open>size'\<close> here. The fields
  \<open>tree\<close>, \<open>max_priority\<close> and \<open>beta\<close> exist in the source only when \<open>prioritized\<close>
  holds; otherwise the model carries placeholders that no operation reads. The
  \<^verbatim>\<open>device\<close> only moves tensors and is left out.\<close>

record 's Buffer =
  batch_size :: int
  max_size :: int
  ptr :: int
  size' :: int
  state :: "'s list"
  action :: "real list"
  next_state :: "'s list"
  reward :: "real list"
  not_done :: "real list"
  seeds :: "real list"
  prioritized :: bool
  tree :: SumTree
  max_priority :: real
  beta :: real

text \<open>\<^verbatim>\<open>Buffer.__init__\<close>: \<^verbatim>\<open>np.zeros\<close> raises \<^verbatim>\<open>ValueError\<close> on a negative
  dimension.\<close>

definition Buffer_init :: "int \<Rightarrow> int \<Rightarrow> bool \<Rightarrow> error + ('s::zero) Buffer" where
  "Buffer_init batch_size_arg buffer_size prioritized_arg =
     (if buffer_size < 0 then Inl ValueError
      else
        let self = \<lparr>batch_size = batch_size_arg, max_size = buffer_size, ptr = 0, size' = 0,
                    state = replicate (nat buffer_size) 0,
                    action = replicate (nat buffer_size) 0,
                    next_state = replicate (nat buffer_size) 0,
                    reward = replicate (nat buffer_size) 0,
                    not_done = replicate (nat buffer_size) 0,
                    seeds = replicate (nat buffer_size) 0,
                    prioritized = prioritized_arg,
                    tree = \<lparr>nodes = []\<rparr>, max_priority = 0, beta = 0\<rparr>
        in if prioritized_arg
           then bind_e (SumTree_init buffer_size) (\<lambda>t.
                  Inr (self\<lparr>tree := t, max_priority := 1, beta := 4 / 10\<rparr>))
           else Inr self)"

text \<open>The two assignments of the wrap-around branch for one array,
  \<^verbatim>\<open>a[self.ptr:] = v[:n_transitions - end]\<close> and \<^verbatim>\<open>a[:end] = v[n_transitions - end:]\<close>,
  and the assignment of the other branch, \<^verbatim>\<open>a[self.ptr:self.ptr+n_transitions] = v\<close>.\<close>

definition write_wrapped :: "'a list \<Rightarrow> int \<Rightarrow> int \<Rightarrow> int \<Rightarrow> 'a list \<Rightarrow> error + 'a list" where
  "write_wrapped a p end' k v =
     bind_e (assign_from a p (slice_upto v k)) (\<lambda>a1. assign_upto a1 end' (slice_from v k))"

definition write_contiguous :: "'a list \<Rightarrow> int \<Rightarrow> int \<Rightarrow> 'a list \<Rightarrow> error + 'a list" where
  "write_contiguous a p n_transitions v = assign_range a p (p + n_transitions) v"

text \<open>\<^verbatim>\<open>Buffer.add\<close>. \<^verbatim>\<open>%\<close> raises \<^verbatim>\<open>ZeroDivisionError\<close> on a zero
  \<^verbatim>\<open>max_size\<close>.\<close>

definition Buffer_add ::
  "'s Buffer \<Rightarrow> 's list \<Rightarrow> real list \<Rightarrow> 's list \<Rightarrow> real list \<Rightarrow> real list \<Rightarrow> real list
     \<Rightarrow> error + 's Buffer" where
  "Buffer_add self state_in action_in next_state_in reward_in done seeds_in =
     (let n_transitions = int (length state_in) in
      if max_size self = 0 then Inl ZeroDivisionError
      else
        let end' = (ptr self + n_transitions) mod max_size self;
            not_done_in = map (\<lambda>d. 1 - d) done
        in
        bind_e
          (if ptr self + n_transitions > max_size self then
             let k = n_transitions - end' in
             bind_e (write_wrapped (state self) (ptr self) end' k state_in) (\<lambda>st.
             bind_e (write_wrapped (action self) (ptr self) end' k action_in) (\<lambda>ac.
             bind_e (write_wrapped (next_state self) (ptr self) end' k next_state_in) (\<lambda>ns.
             bind_e (write_wrapped (reward self) (ptr self) end' k reward_in) (\<lambda>rw.
             bind_e (write_wrapped (not_done self) (ptr self) end' k not_done_in) (\<lambda>nd.
             bind_e (write_wrapped (seeds self) (ptr self) end' k seeds_in) (\<lambda>sd.
             Inr (self\<lparr>state := st, action := ac, next_state := ns, reward := rw,
                        not_done := nd, seeds := sd\<rparr>)))))))
           else
             bind_e (write_contiguous (state self) (ptr self) n_transitions state_in) (\<lambda>st.
             bind_e (write_contiguous (action self) (ptr self) n_transitions action_in) (\<lambda>ac.
             bind_e (write_contiguous (next_state self) (ptr self) n_transitions next_state_in) (\<lambda>ns.
             bind_e (write_contiguous (reward self) (ptr self) n_transitions reward_in) (\<lambda>rw.
             bind_e (write_contiguous (not_done self) (ptr self) n_transitions not_done_in) (\<lambda>nd.
             bind_e (write_contiguous (seeds self) (ptr self) n_transitions seeds_in) (\<lambda>sd.
             Inr (self\<lparr>state := st, action := ac, next_state := ns, reward := rw,
                        not_done := nd, seeds := sd\<rparr>))))))))
          (\<lambda>self1.
        bind_e
          (if prioritized self1
           then bind_e (SumTree_set (tree self1) (ptr self1) (max_priority self1)) (\<lambda>t.
                  Inr (self1\<lparr>tree := t\<rparr>))
           else Inr self1)
          (\<lambda>self2.
        Inr (self2\<lparr>ptr := end', size' := min (size' self2 + 1) (max_size self2)\<rparr>))))"

text \<open>The batch that \<^verbatim>\<open>sample\<close> returns. \<^verbatim>\<open>torch.LongTensor\<close> truncates towards
  zero; the rounding of \<^verbatim>\<open>torch.FloatTensor\<close> is not modelled.\<close>

record 's Batch =
  b_state :: "'s list"
  b_action :: "int list"
  b_next_state :: "'s list"
  b_reward :: "real list"
  b_not_done :: "real list"
  b_seeds :: "int list"
  b_ind :: "int list"
  b_weights :: "real list"

definition to_long :: "real \<Rightarrow> int" where
  "to_long x = (if 0 \<le> x then \<lfloor>x\<rfloor> else \<lceil>x\<rceil>)"

text \<open>\<^verbatim>\<open>weights.max()\<close> raises \<^verbatim>\<open>ValueError\<close> on an empty array.\<close>

definition np_max :: "real list \<Rightarrow> error + real" where
  "np_max xs = (if xs = [] then Inl ValueError else Inr (fold max (tl xs) (hd xs)))"

text \<open>The increment of \<open>beta\<close> per prioritized \<^verbatim>\<open>sample\<close> call, \<^verbatim>\<open>2e-7\<close> in the
  source.\<close>

definition beta_increment :: real where
  "beta_increment = 2 / 10 ^ 7"

text \<open>\<^verbatim>\<open>Buffer.sample\<close>. \<open>query_value\<close> is what \<^verbatim>\<open>np.random.uniform\<close> returned inside
  \<^verbatim>\<open>SumTree.sample\<close> and \<open>rand_ind\<close> what \<^verbatim>\<open>np.random.randint(0, self.size,
  size=self.batch_size)\<close> returned (it raises \<^verbatim>\<open>ValueError\<close> when \<^verbatim>\<open>self.size\<close> is not
  positive); only the one of the taken branch is read. \<^verbatim>\<open>x ** -self.beta\<close> is
  \<open>x powr - beta\<close>, which is NumPy's value for every positive \<open>x\<close>; NumPy's \<open>inf\<close> and
  \<open>nan\<close> for other bases have no counterpart in \<open>real\<close>.\<close>

definition Buffer_sample ::
  "'s Buffer \<Rightarrow> real list \<Rightarrow> int list \<Rightarrow> error + ('s Batch \<times> 's Buffer)" where
  "Buffer_sample self query_value rand_ind =
     bind_e
       (if prioritized self then SumTree_sample (tree self) query_value
        else if size' self \<le> 0 then Inl ValueError
        else Inr rand_ind)
       (\<lambda>ind.
     bind_e (np_take (state self) ind) (\<lambda>st.
     bind_e (np_take (action self) ind) (\<lambda>ac.
     bind_e (np_take (next_state self) ind) (\<lambda>ns.
     bind_e (np_take (reward self) ind) (\<lambda>rw.
     bind_e (np_take (not_done self) ind) (\<lambda>nd.
     bind_e (np_take (seeds self) ind) (\<lambda>sd.
     let batch = \<lparr>b_state = st, b_action = map to_long ac, b_next_state = ns, b_reward = rw,
                  b_not_done = nd, b_seeds = map to_long sd, b_ind = ind, b_weights = [1]\<rparr>
     in
     if prioritized self then
       bind_e (last_level (tree self)) (\<lambda>leaf_level.
       bind_e (np_take leaf_level ind) (\<lambda>priorities.
       let weights = map (\<lambda>p. p powr (- beta self)) priorities in
       bind_e (np_max weights) (\<lambda>m.
       let weights' = map (\<lambda>w. w / m) weights in
       Inr (batch\<lparr>b_weights := weights'\<rparr>,
            self\<lparr>beta := min (beta self + beta_increment) 1\<rparr>))))
     else Inr (batch, self))))))))"

text \<open>\<^verbatim>\<open>Buffer.update_priority\<close>.\<close>

definition Buffer_update_priority :: "'s Buffer \<Rightarrow> int list \<Rightarrow> real list \<Rightarrow> error + 's Buffer" where
  "Buffer_update_priority self ind priority =
     (if prioritized self then
        bind_e (np_max priority) (\<lambda>m.
        bind_e (SumTree_batch_set (tree self) ind priority) (\<lambda>t.
        Inr (self\<lparr>max_priority := max m (max_priority self), tree := t\<rparr>)))
      else Inr self)"

subsection \<open>The categorical projection of \<^verbatim>\<open>Rainbow.train\<close>\<close>

text \<open>The fields of \<^verbatim>\<open>Rainbow\<close> that the projection reads. \<^verbatim>\<open>self.n\<close> is
  \<open>multi_step\<close> and \<^verbatim>\<open>self.batch_size\<close> is \<open>train_batch_size\<close> here.\<close>

record Rainbow =
  atoms :: int
  V_min :: real
  V_max :: real
  delta_z :: real
  gamma :: real
  multi_step :: nat
  train_batch_size :: int

text \<open>\<^verbatim>\<open>Rainbow.__init__\<close>: the division
  \<^verbatim>\<open>(args.V_max - args.V_min) / (self.atoms - 1)\<close> raises \<^verbatim>\<open>ZeroDivisionError\<close> for a
  single atom.\<close>

definition Rainbow_init :: "int \<Rightarrow> real \<Rightarrow> real \<Rightarrow> real \<Rightarrow> nat \<Rightarrow> int \<Rightarrow> error + Rainbow" where
  "Rainbow_init atoms_arg V_min_arg V_max_arg gamma_arg multi_step_arg batch_size_arg =
     (if atoms_arg - 1 = 0 then Inl ZeroDivisionError
      else Inr \<lparr>atoms = atoms_arg, V_min = V_min_arg, V_max = V_max_arg,
                delta_z = (V_max_arg - V_min_arg) / real_of_int (atoms_arg - 1),
                gamma = gamma_arg, multi_step = multi_step_arg,
                train_batch_size = batch_size_arg\<rparr>)"

text \<open>\<^verbatim>\<open>x.clamp(min=lo, max=hi)\<close>.\<close>

definition clamp :: "real \<Rightarrow> real \<Rightarrow> real \<Rightarrow> real" where
  "clamp lo hi x = min (max x lo) hi"

text \<open>The two masked updates, on one entry:
  \<^verbatim>\<open>low[(up > 0) * (low == up)] -= 1\<close>, then, reading the updated \<open>low\<close>,
  \<^verbatim>\<open>up[(low < (self.atoms - 1)) * (low == up)] += 1\<close>.\<close>

definition nudge_low :: "int \<Rightarrow> int \<Rightarrow> int" where
  "nudge_low low up = (if up > 0 \<and> low = up then low - 1 else low)"

definition nudge_up :: "int \<Rightarrow> int \<Rightarrow> int \<Rightarrow> int" where
  "nudge_up atoms_arg low up = (if low < atoms_arg - 1 \<and> low = up then up + 1 else up)"

text \<open>The bounds of one entry \<open>b\<close>: \<^verbatim>\<open>b.floor()\<close> and \<^verbatim>\<open>b.ceil()\<close>, then the two
  updates in the source's order.\<close>

definition bounds :: "int \<Rightarrow> real \<Rightarrow> int \<times> int" where
  "bounds atoms_arg b =
     (let low = \<lfloor>b\<rfloor>; up = \<lceil>b\<rceil>;
          low' = nudge_low low up;
          up' = nudge_up atoms_arg low' up
      in (low', up'))"

text \<open>\<^verbatim>\<open>m.index_add_(0, index, source)\<close> on a one-dimensional view: an index outside
  \<open>[0, length m)\<close> raises, as do index and source of different lengths.\<close>

fun index_add :: "real list \<Rightarrow> int list \<Rightarrow> real list \<Rightarrow> error + real list" where
  "index_add m [] [] = Inr m"
| "index_add m (i # idx) (v # vs) =
     (if 0 \<le> i \<and> i < int (length m) then index_add (m[nat i := m ! nat i + v]) idx vs
      else Inl IndexError)"
| "index_add m _ _ = Inl RuntimeError"

text \<open>One row of \<^verbatim>\<open>b\<close>: the Bellman target of line 78 (which the source builds from
  \<^verbatim>\<open>pns_a\<close>), clamped, then shifted and scaled.\<close>

definition b_row :: "Rainbow \<Rightarrow> real \<Rightarrow> real \<Rightarrow> real list \<Rightarrow> real list" where
  "b_row self reward_r not_done_r pns_row =
     map (\<lambda>p. (clamp (V_min self) (V_max self)
                  (reward_r + not_done_r * gamma self ^ multi_step self * p) - V_min self)
               / delta_z self) pns_row"

text \<open>Lines 78 to 100 of \<^verbatim>\<open>Rainbow.train\<close>: from the sampled \<^verbatim>\<open>reward\<close> and
  \<^verbatim>\<open>not_done\<close> (one number per row) and the target network's distribution \<^verbatim>\<open>pns_a\<close>
  (one row of \<^verbatim>\<open>atoms\<close> numbers per batch entry) to the projected distribution \<^verbatim>\<open>m\<close>,
  returned as its \<^verbatim>\<open>batch_size\<close> rows. The flattened views \<^verbatim>\<open>view(-1)\<close> are
  concatenations of rows; \<^verbatim>\<open>offset\<close> holds \<open>r * atoms\<close> in row \<open>r\<close>. The
  \<^verbatim>\<open>gather\<close> that builds \<^verbatim>\<open>pns_a\<close> gives it the shape \<^verbatim>\<open>(batch_size, atoms)\<close>, and
  \<^verbatim>\<open>reward\<close> and \<^verbatim>\<open>not_done\<close> have one entry per sampled transition; for any other
  shape the model yields \<^verbatim>\<open>RuntimeError\<close>.\<close>

definition project :: "Rainbow \<Rightarrow> real list \<Rightarrow> real list \<Rightarrow> real list list \<Rightarrow> error + real list list" where
  "project self reward_in not_done_in pns_a =
     (let B = nat (train_batch_size self); A = nat (atoms self) in
      if train_batch_size self < 0 \<or> atoms self < 0 \<or> length pns_a \<noteq> B \<or> length reward_in \<noteq> B
         \<or> length not_done_in \<noteq> B \<or> (\<exists>row\<in>set pns_a. length row \<noteq> A)
      then Inl RuntimeError
      else
        let b = map2 (\<lambda>(rw, nd) row. b_row self rw nd row) (zip reward_in not_done_in) pns_a;
            low = map (map (\<lambda>x. fst (bounds (atoms self) x))) b;
            up = map (map (\<lambda>x. snd (bounds (atoms self) x))) b;
            m0 = replicate (B * A) 0;
            offset = map (\<lambda>r. int r * atoms self) [0 ..< B];
            low_off = map2 (\<lambda>off row. map (\<lambda>l. l + off) row) offset low;
            up_off = map2 (\<lambda>off row. map (\<lambda>u. u + off) row) offset up;
            src_low = map2 (\<lambda>prow (urow, brow). map2 (\<lambda>p (u, x). p * (real_of_int u - x)) prow (zip urow brow))
                        pns_a (zip up b);
            src_up = map2 (\<lambda>prow (lrow, brow). map2 (\<lambda>p (l, x). p * (x - real_of_int l)) prow (zip lrow brow))
                        pns_a (zip low b)
        in
        bind_e (index_add m0 (concat low_off) (concat src_low)) (\<lambda>m1.
        bind_e (index_add m1 (concat up_off) (concat src_up)) (\<lambda>m2.
        Inr (map (\<lambda>r. take A (drop (r * A) m2)) [0 ..< B]))))"


section \<open>Properties\<close>

subsection \<open>The sum tree\<close>

text \<open>A level and the level below it: the lower one is twice as long and every node of the
  upper one is the sum of its two children.\<close>

definition pair_ok :: "real list \<Rightarrow> real list \<Rightarrow> bool" where
  "pair_ok up down \<longleftrightarrow>
     length down = 2 * length up \<and> (\<forall>j < length up. up ! j = down ! (2 * j) + down ! (2 * j + 1))"

text \<open>The invariant of the list of levels, read from the leaves up to the root.\<close>

fun tree_inv :: "real list list \<Rightarrow> bool" where
  "tree_inv [] = False"
| "tree_inv [r] = (length r = 1)"
| "tree_inv (down # up # rest) = (pair_ok up down \<and> tree_inv (up # rest))"

text \<open>Sequences of \<^verbatim>\<open>set\<close> and \<^verbatim>\<open>batch_set\<close> calls. A call is in range when its indices
  lie in \<open>[0, capacity)\<close>; \<^verbatim>\<open>batch_set\<close> also needs a priority for each index.\<close>

datatype tree_op = Set int real | Batch_set "int list" "real list"

fun apply_op :: "SumTree \<Rightarrow> tree_op \<Rightarrow> error + SumTree" where
  "apply_op t (Set i p) = SumTree_set t i p"
| "apply_op t (Batch_set ind ps) = SumTree_batch_set t ind ps"

fun run_ops :: "SumTree \<Rightarrow> tree_op list \<Rightarrow> error + SumTree" where
  "run_ops t [] = Inr t"
| "run_ops t (x # xs) = bind_e (apply_op t x) (\<lambda>t'. run_ops t' xs)"

fun op_in_range :: "int \<Rightarrow> tree_op \<Rightarrow> bool" where
  "op_in_range capacity (Set i p) = (0 \<le> i \<and> i < capacity)"
| "op_in_range capacity (Batch_set ind ps) =
     ((\<forall>i\<in>set ind. 0 \<le> i \<and> i < capacity) \<and> length ind \<le> length ps)"

text \<open>The root \<^verbatim>\<open>self.nodes[0][0]\<close>, the leaf level \<^verbatim>\<open>self.nodes[-1]\<close>, and the
  statement that every internal node equals the sum of its two children.\<close>

definition total_priority :: "SumTree \<Rightarrow> real" where
  "total_priority t = nodes t ! 0 ! 0"

definition leaves :: "SumTree \<Rightarrow> real list" where
  "leaves t = last (nodes t)"

definition children_sum :: "SumTree \<Rightarrow> bool" where
  "children_sum t \<longleftrightarrow>
     (\<forall>l j. Suc l < length (nodes t) \<longrightarrow> j < length (nodes t ! l) \<longrightarrow>
        2 * j + 1 < length (nodes t ! Suc l) \<and>
        nodes t ! l ! j = nodes t ! Suc l ! (2 * j) + nodes t ! Suc l ! (2 * j + 1))"

text \<open>A tree as \<^verbatim>\<open>SumTree(capacity)\<close> and in-range updates leave it.\<close>

definition sumtree_ok :: "int \<Rightarrow> SumTree \<Rightarrow> bool" where
  "sumtree_ok capacity t \<longleftrightarrow>
     tree_inv (rev (nodes t)) \<and> 0 < capacity \<and> length (leaves t) = 2 ^ ceil_log2 (nat capacity)"

subsection \<open>The circular store\<close>

text \<open>The array \<open>a\<close> after the rows \<open>v\<close> have been written cyclically from position
  \<open>p\<close> on: slot \<open>j\<close> holds \<open>v ! ((j - p) mod length a)\<close> when that is an index of
  \<open>v\<close>, and its old content otherwise.\<close>

definition cyc_write :: "'a list \<Rightarrow> int \<Rightarrow> 'a list \<Rightarrow> 'a list" where
  "cyc_write a p v =
     map (\<lambda>j. if (int j - p) mod int (length a) < int (length v)
               then v ! nat ((int j - p) mod int (length a)) else a ! j) [0 ..< length a]"

text \<open>A buffer as \<^verbatim>\<open>Buffer.__init__\<close> and \<^verbatim>\<open>add\<close> leave it: a positive capacity, the
  write pointer inside \<open>[0, capacity)\<close>, six arrays of \<open>capacity\<close> rows and, when
  prioritized, a well-formed tree. A batch of \<open>k\<close> transitions has \<open>k\<close> rows in each of
  its six arrays.\<close>

definition buffer_ok :: "'s Buffer \<Rightarrow> bool" where
  "buffer_ok self \<longleftrightarrow>
     0 < max_size self \<and> 0 \<le> ptr self \<and> ptr self < max_size self
     \<and> length (state self) = nat (max_size self) \<and> length (action self) = nat (max_size self)
     \<and> length (next_state self) = nat (max_size self) \<and> length (reward self) = nat (max_size self)
     \<and> length (not_done self) = nat (max_size self) \<and> length (seeds self) = nat (max_size self)
     \<and> (prioritized self \<longrightarrow> sumtree_ok (max_size self) (tree self))"

definition batch_ok ::
  "nat \<Rightarrow> 's list \<Rightarrow> real list \<Rightarrow> 's list \<Rightarrow> real list \<Rightarrow> real list \<Rightarrow> real list \<Rightarrow> bool" where
  "batch_ok k state_in action_in next_state_in reward_in done seeds_in \<longleftrightarrow>
     length state_in = k \<and> length action_in = k \<and> length next_state_in = k
     \<and> length reward_in = k \<and> length done = k \<and> length seeds_in = k"

text \<open>The six fields of slot \<open>j\<close>, and what \<^verbatim>\<open>add\<close> stores for the \<open>i\<close>-th
  transition of a batch (\<^verbatim>\<open>not_done\<close> is \<^verbatim>\<open>1. - done\<close>).\<close>

definition slot :: "'s Buffer \<Rightarrow> nat \<Rightarrow> 's \<times> real \<times> 's \<times> real \<times> real \<times> real" where
  "slot self j = (state self ! j, action self ! j, next_state self ! j, reward self ! j,
                  not_done self ! j, seeds self ! j)"

definition transition ::
  "'s list \<Rightarrow> real list \<Rightarrow> 's list \<Rightarrow> real list \<Rightarrow> real list \<Rightarrow> real list \<Rightarrow> nat
     \<Rightarrow> 's \<times> real \<times> 's \<times> real \<times> real \<times> real" where
  "transition state_in action_in next_state_in reward_in done seeds_in i =
     (state_in ! i, action_in ! i, next_state_in ! i, reward_in ! i, 1 - done ! i, seeds_in ! i)"

text \<open>A buffer of capacity 5 that holds three transitions, for concrete instances.\<close>

definition demo_buffer :: "int Buffer" where
  "demo_buffer =
     \<lparr>batch_size = 2, max_size = 5, ptr = 3, size' = 1,
      state = [10, 20, 30, 0, 0], action = [1, 2, 3, 0, 0],
      next_state = [11, 21, 31, 0, 0], reward = [5, 6, 7, 0, 0],
      not_done = [1, 1, 0, 0, 0], seeds = [8, 8, 9, 0, 0],
      prioritized = False, tree = \<lparr>nodes = []\<rparr>, max_priority = 0, beta = 0\<rparr>"

subsection \<open>Sampling\<close>

text \<open>A sequence of \<^verbatim>\<open>sample\<close> calls, each with the arrays its random draws returned; the
  batches are dropped.\<close>

fun sample_calls :: "'s Buffer \<Rightarrow> (real list \<times> int list) list \<Rightarrow> error + 's Buffer" where
  "sample_calls self [] = Inr self"
| "sample_calls self ((query_value, rand_ind) # draws) =
     bind_e (Buffer_sample self query_value rand_ind) (\<lambda>(batch, self'). sample_calls self' draws)"

text \<open>The priority of a slot as \<^verbatim>\<open>sample\<close> reads it, \<^verbatim>\<open>self.tree.nodes[-1][index]\<close>.\<close>

definition leaf_priority :: "SumTree \<Rightarrow> int \<Rightarrow> real" where
  "leaf_priority t i = (case np_get (leaves t) i of Inl e \<Rightarrow> 0 | Inr p \<Rightarrow> p)"

text \<open>A prioritized buffer of capacity 2 with priorities 1 and 4, the same buffer once
  \<open>beta\<close> has reached 1, and the batch drawn from it for the query values \<open>1/2\<close> and
  \<open>3\<close>.\<close>

definition demo_per :: "int Buffer" where
  "demo_per =
     \<lparr>batch_size = 2, max_size = 2, ptr = 0, size' = 2,
      state = [10, 20], action = [1, 2], next_state = [11, 21], reward = [5, 6],
      not_done = [1, 1], seeds = [8, 9],
      prioritized = True, tree = \<lparr>nodes = [[5], [1, 4]]\<rparr>, max_priority = 4, beta = 4 / 10\<rparr>"

definition demo_annealed :: "int Buffer" where
  "demo_annealed = demo_per\<lparr>beta := 1\<rparr>"

definition demo_batch :: "int Batch" where
  "demo_batch =
     \<lparr>b_state = [10, 20], b_action = [1, 2], b_next_state = [11, 21], b_reward = [5, 6],
      b_not_done = [1, 1], b_seeds = [8, 9], b_ind = [0, 1], b_weights = [1, 1 / 4]\<rparr>"

subsection \<open>The projection\<close>

text \<open>What an \<^verbatim>\<open>index_add_\<close> with indices \<open>idx\<close> and values \<open>vs\<close> adds to the sum of
  the entries \<open>[lo, lo + n)\<close>.\<close>

definition seg_contrib :: "nat \<Rightarrow> nat \<Rightarrow> int list \<Rightarrow> real list \<Rightarrow> real" where
  "seg_contrib lo n idx vs =
     sum_list (map (\<lambda>(i, v). if int lo \<le> i \<and> i < int (lo + n) then v else 0) (zip idx vs))"

text \<open>A learner with three atoms on \<open>[-1, 1]\<close> and batches of two, for concrete
  instances.\<close>

definition demo_rainbow :: Rainbow where
  "demo_rainbow = \<lparr>atoms = 3, V_min = - 1, V_max = 1, delta_z = 1, gamma = 1 / 2,
                    multi_step = 1, train_batch_size = 2\<rparr>"


section \<open>Proofs\<close>

subsection \<open>Results of operations\<close>

lemma bind_e_Inr [simp]: "bind_e (Inr x) f = f x" by (simp add: bind_e_def)

lemma bind_e_Inl [simp]: "bind_e (Inl e) f = Inl e" by (simp add: bind_e_def)

lemma bind_e_eq_Inr: "bind_e m f = Inr y \<longleftrightarrow> (\<exists>x. m = Inr x \<and> f x = Inr y)"
  by (cases m) simp_all

lemma np_index_in_range: "0 \<le> i \<Longrightarrow> i < int n \<Longrightarrow> np_index n i = Inr (nat i)"
  by (simp add: np_index_def)

lemma np_get_in_range: "0 \<le> i \<Longrightarrow> i < int (length a) \<Longrightarrow> np_get a i = Inr (a ! nat i)"
  by (simp add: np_get_def np_index_in_range)

lemma np_add_at1_in_range:
  "0 \<le> i \<Longrightarrow> i < int (length a) \<Longrightarrow> np_add_at1 a i d = Inr (a[nat i := a ! nat i + d])"
  by (simp add: np_add_at1_def np_index_in_range)

lemma np_take_in_range:
  "\<forall>i\<in>set ind. 0 \<le> i \<and> i < int (length a) \<Longrightarrow> \<exists>xs. np_take a ind = Inr xs \<and> length xs = length ind"
  by (induction ind) (auto simp: np_get_in_range)

lemma pair_ok_add1:
  assumes "pair_ok u d" "0 \<le> i" "i < int (length d)"
  shows "pair_ok (u[nat (i div 2) := u ! nat (i div 2) + x]) (d[nat i := d ! nat i + x])"
proof -
  obtain k where k: "i = int k" using assms(2) by (metis nonneg_int_cases)
  have len: "length d = 2 * length u" and sums: "\<And>j. j < length u \<Longrightarrow> u ! j = d ! (2 * j) + d ! (2 * j + 1)"
    using assms(1) by (auto simp: pair_ok_def)
  have kd: "k < length d" using assms(3) k by simp
  have half: "nat (i div 2) = k div 2" using k by (simp add: nat_div_distrib)
  have khalf: "k div 2 < length u" using kd len by simp
  show ?thesis
    unfolding pair_ok_def half
  proof (intro conjI allI impI)
    show "length (d[nat i := d ! nat i + x]) = 2 * length (u[k div 2 := u ! (k div 2) + x])"
      using len by simp
  next
    fix j assume "j < length (u[k div 2 := u ! (k div 2) + x])"
    then have j: "j < length u" by simp
    have j2: "2 * j < length d" "2 * j + 1 < length d" using j len by simp_all
    show "u[k div 2 := u ! (k div 2) + x] ! j =
          d[nat i := d ! nat i + x] ! (2 * j) + d[nat i := d ! nat i + x] ! (2 * j + 1)"
    proof (cases "j = k div 2")
      case True
      then have "k = 2 * j \<or> k = 2 * j + 1" by presburger
      then show ?thesis using True j j2 sums[OF j] k kd by (auto simp: nth_list_update)
    next
      case False
      then have "k \<noteq> 2 * j" "k \<noteq> 2 * j + 1" by presburger+
      then show ?thesis using False j j2 sums[OF j] k by (simp add: nth_list_update)
    qed
  qed
qed

lemma set_levels_ok:
  "tree_inv ls \<Longrightarrow> 0 \<le> i \<Longrightarrow> i < int (length (hd ls)) \<Longrightarrow>
   \<exists>ls'. set_levels ls i x = Inr ls' \<and> tree_inv ls' \<and> map length ls' = map length ls
     \<and> hd ls' = (hd ls)[nat i := hd ls ! nat i + x]"
proof (induction ls arbitrary: i rule: tree_inv.induct)
  case 1
  then show ?case by simp
next
  case (2 r)
  then show ?case by (simp add: np_add_at1_in_range)
next
  case (3 down up rest)
  have po: "pair_ok up down" and inv: "tree_inv (up # rest)" using "3.prems"(1) by simp_all
  have ir: "0 \<le> i" "i < int (length down)" using "3.prems" by simp_all
  have ih: "0 \<le> i div 2" "i div 2 < int (length (hd (up # rest)))"
    using ir po by (auto simp: pair_ok_def)
  from "3.IH"[OF inv ih] obtain ls' where
    ls': "set_levels (up # rest) (i div 2) x = Inr ls'" "tree_inv ls'"
      "map length ls' = map length (up # rest)"
      "hd ls' = up[nat (i div 2) := up ! nat (i div 2) + x]"
    by auto
  then obtain up' rest' where c: "ls' = up' # rest'" by (cases ls') auto
  have "pair_ok up' (down[nat i := down ! nat i + x])"
    using pair_ok_add1[OF po ir] ls'(4) c by simp
  then show ?case
    using ls' c ir by (simp add: np_add_at1_in_range)
qed

lemma pair_ok_add_at:
  "pair_ok u d \<Longrightarrow> \<forall>i\<in>set ind. 0 \<le> i \<and> i < int (length d) \<Longrightarrow> length ds = length ind \<Longrightarrow>
   \<exists>d' u'. np_add_at d ind ds = Inr d' \<and> np_add_at u (map (\<lambda>i. i div 2) ind) ds = Inr u'
      \<and> pair_ok u' d' \<and> length d' = length d \<and> length u' = length u"
proof (induction ind arbitrary: ds u d)
  case Nil
  then show ?case by simp
next
  case (Cons i ind)
  then obtain x xs where ds: "ds = x # xs" by (cases ds) auto
  have ir: "0 \<le> i" "i < int (length d)" using Cons.prems(2) by simp_all
  have ir2: "0 \<le> i div 2" "i div 2 < int (length u)"
    using ir Cons.prems(1) by (auto simp: pair_ok_def)
  let ?d1 = "d[nat i := d ! nat i + x]"
  let ?u1 = "u[nat (i div 2) := u ! nat (i div 2) + x]"
  have po: "pair_ok ?u1 ?d1" by (rule pair_ok_add1[OF Cons.prems(1) ir])
  have rng: "\<forall>i\<in>set ind. 0 \<le> i \<and> i < int (length ?d1)" using Cons.prems(2) by simp
  have len: "length xs = length ind" using Cons.prems(3) ds by simp
  from Cons.IH[OF po rng len] show ?case
    using ds ir ir2 by (simp add: np_add_at1_in_range)
qed

lemma batch_set_levels_ok:
  "tree_inv ls \<Longrightarrow> \<forall>i\<in>set ind. 0 \<le> i \<and> i < int (length (hd ls)) \<Longrightarrow> length ds = length ind \<Longrightarrow>
   \<exists>ls'. batch_set_levels ls ind ds = Inr ls' \<and> tree_inv ls' \<and> map length ls' = map length ls"
proof (induction ls arbitrary: ind rule: tree_inv.induct)
  case 1
  then show ?case by simp
next
  case (2 r)
  have "\<exists>r'. np_add_at r ind ds = Inr r' \<and> length r' = length r"
    using "2.prems"(2,3)
  proof (induction ind arbitrary: ds r)
    case Nil
    then show ?case by simp
  next
    case (Cons i ind)
    then obtain x xs where ds: "ds = x # xs" by (cases ds) auto
    have "\<exists>r'. np_add_at (r[nat i := r ! nat i + x]) ind xs = Inr r'
            \<and> length r' = length (r[nat i := r ! nat i + x])"
      using Cons.prems ds by (intro Cons.IH) simp_all
    then show ?case using Cons.prems ds by (simp add: np_add_at1_in_range)
  qed
  then show ?case using "2.prems"(1) by auto
next
  case (3 down up rest)
  have po: "pair_ok up down" and inv: "tree_inv (up # rest)" using "3.prems"(1) by simp_all
  have rng: "\<forall>i\<in>set ind. 0 \<le> i \<and> i < int (length down)" using "3.prems"(2) by simp
  from pair_ok_add_at[OF po rng "3.prems"(3)] obtain d' u' where
    du: "np_add_at down ind ds = Inr d'" "np_add_at up (map (\<lambda>i. i div 2) ind) ds = Inr u'"
      "pair_ok u' d'" "length d' = length down" "length u' = length up"
    by blast
  have rng2: "\<forall>i\<in>set (map (\<lambda>i. i div 2) ind). 0 \<le> i \<and> i < int (length (hd (up # rest)))"
    using rng po by (auto simp: pair_ok_def)
  have len2: "length ds = length (map (\<lambda>i. i div 2) ind)" using "3.prems"(3) by simp
  from "3.IH"[OF inv rng2 len2] obtain ls' where
    ls': "batch_set_levels (up # rest) (map (\<lambda>i. i div 2) ind) ds = Inr ls'" "tree_inv ls'"
      "map length ls' = map length (up # rest)"
    by blast
  then obtain up' rest' where c: "ls' = up' # rest'" by (cases ls') auto
  have "up' = u'" using ls'(1) du(2) c by (auto simp: bind_e_eq_Inr)
  then show ?case using ls' c du by simp
qed

lemma sum_pairs: "(\<Sum>k<2 * n. f k) = (\<Sum>j<n. f (2 * j) + f (2 * j + 1 :: nat) :: real)"
  by (induction n) (simp_all add: algebra_simps)

lemma pair_ok_sum_list: "pair_ok u d \<Longrightarrow> sum_list u = sum_list d"
proof -
  assume a: "pair_ok u d"
  have "sum_list d = (\<Sum>k<2 * length u. d ! k)"
    using a by (simp add: pair_ok_def sum_list_sum_nth atLeast0LessThan)
  also have "\<dots> = (\<Sum>j<length u. d ! (2 * j) + d ! (2 * j + 1))" by (rule sum_pairs)
  also have "\<dots> = (\<Sum>j<length u. u ! j)" using a by (simp add: pair_ok_def)
  also have "\<dots> = sum_list u" by (simp add: sum_list_sum_nth atLeast0LessThan)
  finally show ?thesis by simp
qed

lemma tree_inv_sum: "tree_inv ls \<Longrightarrow> sum_list (last ls) = sum_list (hd ls) \<and> length (last ls) = 1"
  by (induction ls rule: tree_inv.induct) (auto dest: pair_ok_sum_list)

lemma tree_inv_nth: "tree_inv ls \<Longrightarrow> Suc k < length ls \<Longrightarrow> pair_ok (ls ! Suc k) (ls ! k)"
proof (induction ls arbitrary: k rule: tree_inv.induct)
  case (3 down up rest)
  then show ?case by (cases k) auto
qed simp_all

lemma tree_inv_zeros: "tree_inv (rev (map (\<lambda>i. replicate (2 ^ i) 0) [0 ..< Suc d]))"
proof (induction d)
  case 0
  then show ?case by simp
next
  case (Suc d)
  have "pair_ok (replicate (2 ^ d) 0) (replicate (2 ^ Suc d) 0)" by (simp add: pair_ok_def)
  then show ?case using Suc by (simp del: upt_Suc add: upt_Suc_append[of 0 "Suc d"] upt_Suc_append[of 0 d])
qed

lemma tree_inv_nonempty: "tree_inv ls \<Longrightarrow> ls \<noteq> []"
  by auto

lemma ceil_log2_ge: "n \<le> 2 ^ ceil_log2 n"
proof (induction n rule: ceil_log2.induct)
  case (1 n)
  show ?case
  proof (cases "n \<le> 1")
    case True
    then show ?thesis by (simp add: ceil_log2.simps)
  next
    case False
    then have "(n + 1) div 2 \<le> 2 ^ ceil_log2 ((n + 1) div 2)" using 1 by simp
    then show ?thesis using False by (subst ceil_log2.simps) simp
  qed
qed

lemma sumtree_ok_cap: "sumtree_ok c t \<Longrightarrow> c \<le> int (length (leaves t))"
proof -
  assume a: "sumtree_ok c t"
  have "nat c \<le> 2 ^ ceil_log2 (nat c)" by (rule ceil_log2_ge)
  then show ?thesis using a by (simp add: sumtree_ok_def)
qed

lemma sumtree_ok_hd: "sumtree_ok c t \<Longrightarrow> nodes t \<noteq> [] \<and> hd (rev (nodes t)) = leaves t"
  by (auto simp: sumtree_ok_def leaves_def hd_rev)

lemma same_lengths_last:
  "map length ls' = map length ls \<Longrightarrow> ls \<noteq> [] \<Longrightarrow> length (hd ls') = length (hd ls)"
  by (cases ls; cases ls') auto

lemma SumTree_set_ok:
  assumes "sumtree_ok c t" "0 \<le> i" "i < c"
  shows "\<exists>t'. SumTree_set t i p = Inr t' \<and> sumtree_ok c t' \<and> leaves t' = (leaves t)[nat i := p]"
proof -
  have ne: "nodes t \<noteq> []" and hd: "hd (rev (nodes t)) = leaves t"
    using sumtree_ok_hd[OF assms(1)] by simp_all
  have inv: "tree_inv (rev (nodes t))" using assms(1) by (simp add: sumtree_ok_def)
  have cap: "c \<le> int (length (leaves t))" by (rule sumtree_ok_cap[OF assms(1)])
  have shape: "0 < c" "length (leaves t) = 2 ^ ceil_log2 (nat c)"
    using assms(1) by (simp_all add: sumtree_ok_def)
  have ir: "i < int (length (hd (rev (nodes t))))" using assms(3) cap hd by simp
  from set_levels_ok[OF inv assms(2) ir, of "p - leaves t ! nat i"] obtain ls' where
    ls': "set_levels (rev (nodes t)) i (p - leaves t ! nat i) = Inr ls'" "tree_inv ls'"
      "map length ls' = map length (rev (nodes t))"
      "hd ls' = (leaves t)[nat i := leaves t ! nat i + (p - leaves t ! nat i)]"
    using hd by auto
  have ne': "ls' \<noteq> []" using ls'(2) by auto
  have lv: "leaves (t\<lparr>nodes := rev ls'\<rparr>) = hd ls'" using ne' by (simp add: leaves_def last_rev)
  have "SumTree_set t i p = Inr (t\<lparr>nodes := rev ls'\<rparr>)"
    using ne ls'(1) assms(2) ir hd
    by (simp add: SumTree_set_def last_level_def np_get_in_range leaves_def[symmetric])
  moreover have "sumtree_ok c (t\<lparr>nodes := rev ls'\<rparr>)"
    using ls'(2,4) shape lv by (simp add: sumtree_ok_def)
  moreover have "leaves (t\<lparr>nodes := rev ls'\<rparr>) = (leaves t)[nat i := p]"
    using lv ls'(4) by simp
  ultimately show ?thesis by blast
qed

lemma first_index_less: "v \<in> set xs \<Longrightarrow> first_index xs v < length xs"
  by (induction xs) auto

lemma SumTree_batch_set_ok:
  assumes "sumtree_ok c t" "\<forall>i\<in>set ind. 0 \<le> i \<and> i < c" "length ind \<le> length ps"
  shows "\<exists>t'. SumTree_batch_set t ind ps = Inr t' \<and> sumtree_ok c t'"
proof -
  have ne: "nodes t \<noteq> []" and hd: "hd (rev (nodes t)) = leaves t"
    using sumtree_ok_hd[OF assms(1)] by simp_all
  have inv: "tree_inv (rev (nodes t))" using assms(1) by (simp add: sumtree_ok_def)
  have cap: "c \<le> int (length (leaves t))" by (rule sumtree_ok_cap[OF assms(1)])
  have shape: "0 < c" "length (leaves t) = 2 ^ ceil_log2 (nat c)"
    using assms(1) by (simp_all add: sumtree_ok_def)
  define u where "u = sort (remdups ind)"
  define ui where "ui = map (\<lambda>v. int (first_index ind v)) u"
  have uq: "np_unique ind = (u, ui)" by (simp add: np_unique_def u_def ui_def Let_def)
  have su: "set u = set ind" by (simp add: u_def)
  have "\<forall>k\<in>set ui. 0 \<le> k \<and> k < int (length ps)"
    using first_index_less assms(3) su by (fastforce simp: ui_def)
  from np_take_in_range[OF this] obtain new where
    new: "np_take ps ui = Inr new" "length new = length u" by (auto simp: ui_def)
  have ur: "\<forall>i\<in>set u. 0 \<le> i \<and> i < int (length (leaves t))" using su assms(2) cap by auto
  from np_take_in_range[OF this] obtain old where
    old: "np_take (leaves t) u = Inr old" "length old = length u" by auto
  define ds where "ds = map2 (\<lambda>x y. x - y) new old"
  have lds: "length ds = length u" using new old by (simp add: ds_def)
  have ur': "\<forall>i\<in>set u. 0 \<le> i \<and> i < int (length (hd (rev (nodes t))))" using ur hd by simp
  from batch_set_levels_ok[OF inv ur' lds] obtain ls' where
    ls': "batch_set_levels (rev (nodes t)) u ds = Inr ls'" "tree_inv ls'"
      "map length ls' = map length (rev (nodes t))" by blast
  have ne': "ls' \<noteq> []" using ls'(2) by auto
  have "length (hd ls') = length (leaves t)"
    using same_lengths_last[OF ls'(3)] ne hd by simp
  then have "sumtree_ok c (t\<lparr>nodes := rev ls'\<rparr>)"
    using ls'(2) shape ne' by (simp add: sumtree_ok_def leaves_def last_rev)
  moreover have "SumTree_batch_set t ind ps = Inr (t\<lparr>nodes := rev ls'\<rparr>)"
    using uq new old ls'(1) ne
    by (simp add: SumTree_batch_set_def last_level_def leaves_def[symmetric] ds_def)
  ultimately show ?thesis by blast
qed

lemma SumTree_init_ok: "SumTree_init c = Inr t \<Longrightarrow> sumtree_ok c t"
proof -
  assume a: "SumTree_init c = Inr t"
  then have c: "0 < c" and t: "t = \<lparr>nodes = map (\<lambda>i. replicate (2 ^ i) 0) [0 ..< Suc (ceil_log2 (nat c))]\<rparr>"
    by (auto simp: SumTree_init_def split: if_splits)
  show ?thesis using c tree_inv_zeros[of "ceil_log2 (nat c)"]
    unfolding sumtree_ok_def t leaves_def by (simp del: upt_Suc add: last_map)
qed

lemma run_ops_ok:
  "sumtree_ok c t \<Longrightarrow> \<forall>x\<in>set ops. op_in_range c x \<Longrightarrow>
   \<exists>t'. run_ops t ops = Inr t' \<and> sumtree_ok c t'"
proof (induction ops arbitrary: t)
  case Nil
  then show ?case by simp
next
  case (Cons x ops)
  have "\<exists>t1. apply_op t x = Inr t1 \<and> sumtree_ok c t1"
  proof (cases x)
    case (Set i p)
    then show ?thesis using SumTree_set_ok[OF Cons.prems(1), of i p] Cons.prems(2) by auto
  next
    case (Batch_set ind ps)
    then show ?thesis using SumTree_batch_set_ok[OF Cons.prems(1), of ind ps] Cons.prems(2) by auto
  qed
  then obtain t1 where t1: "apply_op t x = Inr t1" "sumtree_ok c t1" by blast
  from Cons.IH[OF t1(2)] Cons.prems(2) t1(1) show ?case by simp
qed

lemma sumtree_ok_children: "sumtree_ok c t \<Longrightarrow> children_sum t"
  unfolding children_sum_def
proof (intro allI impI)
  fix l j
  assume ok: "sumtree_ok c t" and l: "Suc l < length (nodes t)" and j: "j < length (nodes t ! l)"
  let ?n = "length (nodes t)"
  have inv: "tree_inv (rev (nodes t))" using ok by (simp add: sumtree_ok_def)
  have k: "Suc (?n - Suc (Suc l)) < length (rev (nodes t))" using l by simp
  have "pair_ok (rev (nodes t) ! Suc (?n - Suc (Suc l))) (rev (nodes t) ! (?n - Suc (Suc l)))"
    by (rule tree_inv_nth[OF inv k])
  moreover have "rev (nodes t) ! Suc (?n - Suc (Suc l)) = nodes t ! l"
    using l by (simp add: rev_nth Suc_diff_Suc)
  moreover have "rev (nodes t) ! (?n - Suc (Suc l)) = nodes t ! Suc l"
    using l by (simp add: rev_nth Suc_diff_Suc)
  ultimately have "pair_ok (nodes t ! l) (nodes t ! Suc l)" by simp
  then show "2 * j + 1 < length (nodes t ! Suc l) \<and>
        nodes t ! l ! j = nodes t ! Suc l ! (2 * j) + nodes t ! Suc l ! (2 * j + 1)"
    using j by (auto simp: pair_ok_def)
qed

lemma sumtree_ok_total: "sumtree_ok c t \<Longrightarrow> total_priority t = sum_list (leaves t)"
proof -
  assume ok: "sumtree_ok c t"
  have inv: "tree_inv (rev (nodes t))" using ok by (simp add: sumtree_ok_def)
  have ne: "nodes t \<noteq> []" using sumtree_ok_hd[OF ok] by simp
  from tree_inv_sum[OF inv] have s: "sum_list (hd (nodes t)) = sum_list (leaves t)"
    and l: "length (hd (nodes t)) = 1"
    using ne by (simp_all add: last_rev hd_rev leaves_def)
  from l obtain x where x: "hd (nodes t) = [x]" by (cases "hd (nodes t)") auto
  have "total_priority t = hd (nodes t) ! 0" using ne by (simp add: total_priority_def hd_conv_nth)
  then show ?thesis using s x by simp
qed


lemma np_index_total:
  "- int n \<le> i \<Longrightarrow> i < int n \<Longrightarrow> \<exists>j<n. np_index n i = Inr j"
  by (auto simp: np_index_def)

lemma np_index_outside:
  "i < - int n \<or> int n \<le> i \<Longrightarrow> np_index n i = Inl IndexError"
  by (auto simp: np_index_def)

lemma set_levels_total:
  "tree_inv ls \<Longrightarrow> - int (length (hd ls)) \<le> i \<Longrightarrow> i < int (length (hd ls)) \<Longrightarrow>
   \<exists>ls'. set_levels ls i x = Inr ls'"
proof (induction ls arbitrary: i rule: tree_inv.induct)
  case 1
  then show ?case by simp
next
  case (2 r)
  then obtain j where "np_index (length r) i = Inr j" using np_index_total[of "length r" i] by auto
  then show ?case by (simp add: np_add_at1_def)
next
  case (3 down up rest)
  have po: "pair_ok up down" and inv: "tree_inv (up # rest)" using "3.prems"(1) by simp_all
  have ir: "- int (length down) \<le> i" "i < int (length down)" using "3.prems" by simp_all
  obtain j where j: "np_index (length down) i = Inr j" using np_index_total[OF ir] by auto
  have len: "length down = 2 * length up" using po by (simp add: pair_ok_def)
  have ih: "- int (length (hd (up # rest))) \<le> i div 2" "i div 2 < int (length (hd (up # rest)))"
    using ir len by auto
  from "3.IH"[OF inv ih] obtain ls' where "set_levels (up # rest) (i div 2) x = Inr ls'" by blast
  then show ?case using j by (simp add: np_add_at1_def)
qed

lemma SumTree_set_total:
  assumes "sumtree_ok c t" "- int (length (leaves t)) \<le> i" "i < int (length (leaves t))"
  shows "\<exists>t'. SumTree_set t i p = Inr t'"
proof -
  have ne: "nodes t \<noteq> []" and hd: "hd (rev (nodes t)) = leaves t"
    using sumtree_ok_hd[OF assms(1)] by simp_all
  have inv: "tree_inv (rev (nodes t))" using assms(1) by (simp add: sumtree_ok_def)
  obtain j where j: "np_index (length (leaves t)) i = Inr j"
    using np_index_total[OF assms(2,3)] by auto
  have "\<exists>ls'. set_levels (rev (nodes t)) i (p - leaves t ! j) = Inr ls'"
    using set_levels_total[OF inv] assms(2,3) hd by simp
  then show ?thesis using ne j
    by (auto simp: SumTree_set_def last_level_def np_get_def leaves_def[symmetric])
qed

lemma SumTree_set_outside:
  assumes "sumtree_ok c t" "i < - int (length (leaves t)) \<or> int (length (leaves t)) \<le> i"
  shows "SumTree_set t i p = Inl IndexError"
proof -
  have ne: "nodes t \<noteq> []" using sumtree_ok_hd[OF assms(1)] by simp
  show ?thesis using ne np_index_outside[OF assms(2)]
    by (simp add: SumTree_set_def last_level_def np_get_def leaves_def[symmetric])
qed

lemma SumTree_init_run_ok:
  assumes "SumTree_init capacity = Inr t0" "list_all (op_in_range capacity) ops"
    "run_ops t0 ops = Inr t"
  shows "sumtree_ok capacity t"
proof -
  have "\<forall>x\<in>set ops. op_in_range capacity x" using assms(2) by (simp add: list_all_iff)
  from run_ops_ok[OF SumTree_init_ok[OF assms(1)] this] assms(3) show ?thesis by auto
qed

lemma length_cyc_write [simp]: "length (cyc_write a p v) = length a"
  by (simp add: cyc_write_def)

lemma nth_cyc_write:
  "j < length a \<Longrightarrow> cyc_write a p v ! j =
     (if (int j - p) mod int (length a) < int (length v)
      then v ! nat ((int j - p) mod int (length a)) else a ! j)"
  by (simp add: cyc_write_def)

lemma mod_shift_neg: "- n \<le> x \<Longrightarrow> x < 0 \<Longrightarrow> (x::int) mod n = x + n"
  using mod_pos_pos_trivial[of "x + n" n] by simp

lemma write_contiguous_eq:
  assumes "0 \<le> p" "p + int (length v) \<le> int (length a)"
  shows "write_contiguous a p (int (length v)) v = Inr (cyc_write a p v)"
proof -
  obtain q where q: "p = int q" using assms(1) by (metis nonneg_int_cases)
  have le: "q + length v \<le> length a" using assms(2) q by simp
  have c1: "py_clip (length a) p = q" using q le by (simp add: py_clip_def)
  have c2: "py_clip (length a) (p + int (length v)) = q + length v"
    using q le by (simp add: py_clip_def nat_add_distrib)
  have "take q a @ v @ drop (q + length v) a = cyc_write a p v"
  proof (rule nth_equalityI)
    show "length (take q a @ v @ drop (q + length v) a) = length (cyc_write a p v)"
      using le by simp
  next
    fix j assume "j < length (take q a @ v @ drop (q + length v) a)"
    then have j: "j < length a" using le by simp
    consider "j < q" | "q \<le> j" "j < q + length v" | "q + length v \<le> j" by linarith
    then show "(take q a @ v @ drop (q + length v) a) ! j = cyc_write a p v ! j"
    proof cases
      case 1
      then have "(int j - p) mod int (length a) = int j - p + int (length a)"
        using q j le by (intro mod_shift_neg) simp_all
      then show ?thesis using 1 j q le by (simp add: nth_cyc_write nth_append)
    next
      case 2
      then have "(int j - p) mod int (length a) = int j - p" using q j by simp
      moreover have "j - q < length v" using 2 by linarith
      ultimately show ?thesis using 2 j q le by (simp add: nth_cyc_write nth_append nat_diff_distrib)
    next
      case 3
      then have "(int j - p) mod int (length a) = int j - p" using q j by simp
      moreover have "\<not> j - q < length v" "\<not> j < q" "q + length v + (j - q - length v) = j"
        using 3 by linarith+
      ultimately show ?thesis using 3 j q le by (simp add: nth_cyc_write nth_append)
    qed
  qed
  then show ?thesis using c1 c2 by (simp add: write_contiguous_def assign_range_def np_assign_def)
qed

lemma write_wrapped_eq:
  assumes "0 \<le> p" "p < int (length a)" "length v \<le> length a" "int (length a) < p + int (length v)"
  shows "write_wrapped a p ((p + int (length v)) mod int (length a))
           (int (length v) - (p + int (length v)) mod int (length a)) v = Inr (cyc_write a p v)"
proof -
  let ?N = "length a" and ?k = "length v"
  obtain q where q: "p = int q" using assms(1) by (metis nonneg_int_cases)
  have qN: "q < ?N" and kN: "?k \<le> ?N" and wrap: "?N < q + ?k" using assms q by simp_all
  define e where "e = q + ?k - ?N"
  have e: "e \<le> q" "e < ?N" "e + ?N = q + ?k" "e \<le> ?k" "?k - (?N - q) = e"
    using qN kN wrap by (simp_all add: e_def)
  have "(p + int ?k) mod int ?N = (int e + int ?N) mod int ?N" using q e(3) by (metis of_nat_add)
  also have "\<dots> = int e" using e(2) by simp
  finally have m: "(p + int ?k) mod int ?N = int e" .
  have k': "int ?k - int e = int (?N - q)" using e(3) qN by linarith
  have s1: "slice_upto v (int (?N - q)) = take (?N - q) v"
    using wrap by (simp add: slice_upto_def py_clip_def)
  have s2: "slice_from v (int (?N - q)) = drop (?N - q) v"
    using wrap by (simp add: slice_from_def py_clip_def)
  have a1: "assign_from a p (take (?N - q) v) = Inr (take q a @ take (?N - q) v)"
    using q qN wrap by (simp add: assign_from_def np_assign_def py_clip_def Let_def)
  have a2: "assign_upto (take q a @ take (?N - q) v) (int e) (drop (?N - q) v)
            = Inr (drop (?N - q) v @ drop e (take q a @ take (?N - q) v))"
    using e qN wrap by (simp add: assign_upto_def np_assign_def py_clip_def Let_def)
  have "drop (?N - q) v @ drop e (take q a @ take (?N - q) v) = cyc_write a p v"
  proof (rule nth_equalityI)
    show "length (drop (?N - q) v @ drop e (take q a @ take (?N - q) v)) = length (cyc_write a p v)"
      using e qN wrap by simp
  next
    fix j assume "j < length (drop (?N - q) v @ drop e (take q a @ take (?N - q) v))"
    then have j: "j < ?N" using e qN wrap by simp
    consider "j < e" | "e \<le> j" "j < q" | "q \<le> j" by linarith
    then show "(drop (?N - q) v @ drop e (take q a @ take (?N - q) v)) ! j = cyc_write a p v ! j"
    proof cases
      case 1
      have "(int j - p) mod int ?N = int j - p + int ?N"
        using q j 1 e qN by (intro mod_shift_neg) simp_all
      moreover have "int j - p + int ?N = int (?N - q + j)" using q qN by linarith
      ultimately have modv: "(int j - p) mod int ?N = int (?N - q + j)" by simp
      have c: "?N - q + j < ?k" using 1 e qN by linarith
      have r: "cyc_write a p v ! j = v ! (?N - q + j)"
        using c by (simp only: nth_cyc_write[OF j] modv nat_int of_nat_less_iff if_True)
      have l: "(drop (?N - q) v @ drop e (take q a @ take (?N - q) v)) ! j = v ! (?N - q + j)"
        using 1 e by (simp add: nth_append)
      show ?thesis using l r by simp
    next
      case 2
      have "(int j - p) mod int ?N = int j - p + int ?N"
        using q j 2 qN by (intro mod_shift_neg) simp_all
      moreover have "int j - p + int ?N = int (?N - q + j)" using q qN by linarith
      ultimately have modv: "(int j - p) mod int ?N = int (?N - q + j)" by simp
      have c: "\<not> ?N - q + j < ?k" using 2 e qN by linarith
      have r: "cyc_write a p v ! j = a ! j"
        using c by (simp only: nth_cyc_write[OF j] modv nat_int of_nat_less_iff if_False)
      have "\<not> j < ?k - (?N - q)" "e + (j - e) = j" "j - e < q - e" using 2 e by linarith+
      then have l: "(drop (?N - q) v @ drop e (take q a @ take (?N - q) v)) ! j = a ! j"
        using 2 e by (simp add: nth_append)
      show ?thesis using l r by simp
    next
      case 3
      have "(int j - p) mod int ?N = int j - p" using q j 3 by simp
      moreover have "int j - p = int (j - q)" using q 3 by linarith
      ultimately have modv: "(int j - p) mod int ?N = int (j - q)" by simp
      have c: "j - q < ?k" using 3 j wrap by linarith
      have r: "cyc_write a p v ! j = v ! (j - q)"
        using c by (simp only: nth_cyc_write[OF j] modv nat_int of_nat_less_iff if_True)
      have "\<not> j < ?k - (?N - q)" "e + (j - e) = j" "\<not> j < q" "j - q < ?N - q"
        "\<not> j - e < q - e" "j - e - (q - e) = j - q"
        using 3 e j by linarith+
      then have l: "(drop (?N - q) v @ drop e (take q a @ take (?N - q) v)) ! j = v ! (j - q)"
        using 3 e by (simp add: nth_append)
      show ?thesis using l r by simp
    qed
  qed
  then show ?thesis using m k' s1 s2 a1 a2 by (simp add: write_wrapped_def)
qed

lemma write_wrapped_eq':
  assumes "length a = nat N" "length v = k" "0 \<le> p" "p < N" "int k \<le> N" "N < p + int k"
  shows "write_wrapped a p ((p + int k) mod N) (int k - (p + int k) mod N) v = Inr (cyc_write a p v)"
proof -
  have N: "N = int (length a)" using assms(1,3,4) by simp
  show ?thesis unfolding N assms(2)[symmetric]
    by (rule write_wrapped_eq) (use assms N in simp_all)
qed

lemma write_contiguous_eq':
  assumes "length a = nat N" "length v = k" "0 \<le> p" "p + int k \<le> N"
  shows "write_contiguous a p (int k) v = Inr (cyc_write a p v)"
proof -
  have N: "N = int (length a)" using assms by simp
  show ?thesis unfolding assms(2)[symmetric]
    by (rule write_contiguous_eq) (use assms N in simp_all)
qed

lemma Buffer_add_result:
  assumes ok: "buffer_ok self"
    and b: "batch_ok k state_in action_in next_state_in reward_in done seeds_in"
    and k: "int k \<le> max_size self"
  shows "\<exists>t'. (if prioritized self
               then SumTree_set (tree self) (ptr self) (max_priority self) = Inr t'
                    \<and> sumtree_ok (max_size self) t'
                    \<and> leaves t' = (leaves (tree self))[nat (ptr self) := max_priority self]
               else t' = tree self)
          \<and> Buffer_add self state_in action_in next_state_in reward_in done seeds_in =
              Inr (self\<lparr>state := cyc_write (state self) (ptr self) state_in,
                        action := cyc_write (action self) (ptr self) action_in,
                        next_state := cyc_write (next_state self) (ptr self) next_state_in,
                        reward := cyc_write (reward self) (ptr self) reward_in,
                        not_done := cyc_write (not_done self) (ptr self) (map (\<lambda>d. 1 - d) done),
                        seeds := cyc_write (seeds self) (ptr self) seeds_in,
                        tree := t',
                        ptr := (ptr self + int k) mod max_size self,
                        size' := min (size' self + 1) (max_size self)\<rparr>)"
proof -
  let ?N = "max_size self" and ?p = "ptr self"
  have N: "0 < ?N" "?N \<noteq> 0" and p: "0 \<le> ?p" "?p < ?N" using ok by (simp_all add: buffer_ok_def)
  have la: "length (state self) = nat ?N" "length (action self) = nat ?N"
    "length (next_state self) = nat ?N" "length (reward self) = nat ?N"
    "length (not_done self) = nat ?N" "length (seeds self) = nat ?N"
    using ok by (simp_all add: buffer_ok_def)
  have lv: "length state_in = k" "length action_in = k" "length next_state_in = k"
    "length reward_in = k" "length (map (\<lambda>d. 1 - d) done) = k" "length seeds_in = k"
    using b by (simp_all add: batch_ok_def)
  obtain t' where t': "if prioritized self
               then SumTree_set (tree self) ?p (max_priority self) = Inr t'
                    \<and> sumtree_ok ?N t'
                    \<and> leaves t' = (leaves (tree self))[nat ?p := max_priority self]
               else t' = tree self"
  proof (cases "prioritized self")
    case True
    then have "sumtree_ok ?N (tree self)" using ok by (simp add: buffer_ok_def)
    from SumTree_set_ok[OF this p, of "max_priority self"] True that show ?thesis by auto
  next
    case False
    then show ?thesis using that by simp
  qed
  have "Buffer_add self state_in action_in next_state_in reward_in done seeds_in =
              Inr (self\<lparr>state := cyc_write (state self) ?p state_in,
                        action := cyc_write (action self) ?p action_in,
                        next_state := cyc_write (next_state self) ?p next_state_in,
                        reward := cyc_write (reward self) ?p reward_in,
                        not_done := cyc_write (not_done self) ?p (map (\<lambda>d. 1 - d) done),
                        seeds := cyc_write (seeds self) ?p seeds_in,
                        tree := t',
                        ptr := (?p + int k) mod ?N,
                        size' := min (size' self + 1) ?N\<rparr>)"
  proof (cases "?N < ?p + int k")
    case True
    note w = write_wrapped_eq'[OF _ _ p k True]
    show ?thesis
      using True N t' lv(1)
      by (simp add: Buffer_add_def Let_def w[OF la(1) lv(1)] w[OF la(2) lv(2)] w[OF la(3) lv(3)]
          w[OF la(4) lv(4)] w[OF la(5) lv(5)] w[OF la(6) lv(6)])
  next
    case False
    then have le: "?p + int k \<le> ?N" by simp
    note w = write_contiguous_eq'[OF _ _ p(1) le]
    show ?thesis
      using False N t' lv(1)
      by (simp add: Buffer_add_def Let_def w[OF la(1) lv(1)] w[OF la(2) lv(2)] w[OF la(3) lv(3)]
          w[OF la(4) lv(4)] w[OF la(5) lv(5)] w[OF la(6) lv(6)])
  qed
  then show ?thesis using t' by blast
qed

lemma Buffer_add_slots:
  assumes ok: "buffer_ok self"
    and b: "batch_ok k state_in action_in next_state_in reward_in done seeds_in"
    and k: "int k \<le> max_size self"
  shows "\<exists>self'. Buffer_add self state_in action_in next_state_in reward_in done seeds_in = Inr self'
          \<and> buffer_ok self'
          \<and> max_size self' = max_size self
          \<and> ptr self' = (ptr self + int k) mod max_size self
          \<and> size' self' = min (size' self + 1) (max_size self)
          \<and> (\<forall>j < nat (max_size self). slot self' j =
                (if (int j - ptr self) mod max_size self < int k
                 then transition state_in action_in next_state_in reward_in done seeds_in
                        (nat ((int j - ptr self) mod max_size self))
                 else slot self j))"
proof -
  let ?N = "max_size self" and ?p = "ptr self"
  from Buffer_add_result[OF ok b k] obtain t' where
    t': "if prioritized self
               then SumTree_set (tree self) ?p (max_priority self) = Inr t'
                    \<and> sumtree_ok ?N t'
                    \<and> leaves t' = (leaves (tree self))[nat ?p := max_priority self]
               else t' = tree self"
    and r: "Buffer_add self state_in action_in next_state_in reward_in done seeds_in =
              Inr (self\<lparr>state := cyc_write (state self) ?p state_in,
                        action := cyc_write (action self) ?p action_in,
                        next_state := cyc_write (next_state self) ?p next_state_in,
                        reward := cyc_write (reward self) ?p reward_in,
                        not_done := cyc_write (not_done self) ?p (map (\<lambda>d. 1 - d) done),
                        seeds := cyc_write (seeds self) ?p seeds_in,
                        tree := t',
                        ptr := (?p + int k) mod ?N,
                        size' := min (size' self + 1) ?N\<rparr>)" (is "_ = Inr ?s")
    by blast
  have N: "0 < ?N" using ok by (simp add: buffer_ok_def)
  have la: "length (state self) = nat ?N" "length (action self) = nat ?N"
    "length (next_state self) = nat ?N" "length (reward self) = nat ?N"
    "length (not_done self) = nat ?N" "length (seeds self) = nat ?N"
    using ok by (simp_all add: buffer_ok_def)
  have lv: "length state_in = k" "length action_in = k" "length next_state_in = k"
    "length reward_in = k" "length done = k" "length seeds_in = k"
    using b by (simp_all add: batch_ok_def)
  have ok': "buffer_ok ?s"
    using ok t' N by (auto simp: buffer_ok_def split: if_splits)
  have slots: "slot ?s j =
                (if (int j - ?p) mod ?N < int k
                 then transition state_in action_in next_state_in reward_in done seeds_in
                        (nat ((int j - ?p) mod ?N))
                 else slot self j)" if j: "j < nat ?N" for j
  proof -
    have iN: "int (nat ?N) = ?N" using N by simp
    have m0: "0 \<le> (int j - ?p) mod ?N" using N by simp
    show ?thesis
    proof (cases "(int j - ?p) mod ?N < int k")
      case True
      then have "nat ((int j - ?p) mod ?N) < k" using m0 by linarith
      then show ?thesis using True j la lv N
        by (simp add: slot_def transition_def nth_cyc_write iN)
    next
      case False
      then show ?thesis using j la lv N
        by (simp add: slot_def nth_cyc_write iN)
    qed
  qed
  show ?thesis using r ok' slots by simp
qed

lemma cyclic_range_iff:
  assumes "0 < N" "0 \<le> p" "j < nat N"
  shows "(int j - p) mod N < int k \<longleftrightarrow> int j \<in> (\<lambda>i. (p + int i) mod N) ` {..<k}"
proof
  assume a: "(int j - p) mod N < int k"
  let ?i = "nat ((int j - p) mod N)"
  have i: "int ?i = (int j - p) mod N" using assms(1) by simp
  have "?i < k" using a i by linarith
  moreover have "(p + int ?i) mod N = int j"
  proof -
    have "(p + int ?i) mod N = (p + (int j - p)) mod N" unfolding i by (simp add: mod_add_right_eq)
    also have "\<dots> = int j" using assms by simp
    finally show ?thesis .
  qed
  ultimately show "int j \<in> (\<lambda>i. (p + int i) mod N) ` {..<k}" by force
next
  assume "int j \<in> (\<lambda>i. (p + int i) mod N) ` {..<k}"
  then obtain i where i: "i < k" "int j = (p + int i) mod N" by auto
  have "(int j - p) mod N = ((p + int i) mod N - p) mod N" using i by simp
  also have "\<dots> = (p + int i - p) mod N" by (simp add: mod_diff_left_eq)
  also have "\<dots> = int i mod N" by simp
  also have "\<dots> \<le> int i" using assms(1) by (simp add: zmod_le_nonneg_dividend)
  finally show "(int j - p) mod N < int k" using i(1) by linarith
qed

lemma Buffer_init_ok:
  assumes "Buffer_init bs N prio = Inr (b :: ('s::zero) Buffer)" "0 < N"
  shows "buffer_ok b \<and> ptr b = 0 \<and> size' b = 0 \<and> max_size b = N \<and> prioritized b = prio"
proof (cases prio)
  case True
  then obtain t where t: "SumTree_init N = Inr t"
    and b: "b = \<lparr>batch_size = bs, max_size = N, ptr = 0, size' = 0,
                    state = replicate (nat N) 0, action = replicate (nat N) 0,
                    next_state = replicate (nat N) 0, reward = replicate (nat N) 0,
                    not_done = replicate (nat N) 0, seeds = replicate (nat N) 0,
                    prioritized = True, tree = t, max_priority = 1, beta = 4 / 10\<rparr>"
    using assms by (auto simp: Buffer_init_def Let_def bind_e_eq_Inr split: if_splits)
  show ?thesis using assms(2) SumTree_init_ok[OF t] True by (simp add: b buffer_ok_def)
next
  case False
  then show ?thesis using assms by (auto simp: Buffer_init_def Let_def buffer_ok_def split: if_splits)
qed

lemma tree5: "SumTree_init 5 = Inr \<lparr>nodes = [[0],[0,0],[0,0,0,0],[0,0,0,0,0,0,0,0]]\<rparr>"
  by code_simp

lemma rep5: "replicate 5 x = [x, x, x, x, x]"
  by (simp add: numeral_eq_Suc)

lemma init5: "Buffer_init bs 5 prio = Inr 
   \<lparr>batch_size = bs, max_size = 5, ptr = 0, size' = 0,
                    state = [0,0,0,0,0::'s::zero], action = [0,0,0,0,0],
                    next_state = [0,0,0,0,0], reward = [0,0,0,0,0],
                    not_done = [0,0,0,0,0], seeds = [0,0,0,0,0],
                    prioritized = prio, tree = (if prio then \<lparr>nodes = [[0],[0,0],[0,0,0,0],[0,0,0,0,0,0,0,0]]\<rparr> else \<lparr>nodes = []\<rparr>), 
                    max_priority = (if prio then 1 else 0), beta = (if prio then 4/10 else 0)\<rparr>"
  by (simp add: Buffer_init_def tree5 rep5 Let_def)

lemma Buffer_add_wrap_general:
  assumes ok: "buffer_ok self"
    and b: "batch_ok k state_in action_in next_state_in reward_in done seeds_in"
    and k: "int k \<le> max_size self" and wrap: "max_size self < ptr self + int k"
  shows "\<exists>self'. Buffer_add self state_in action_in next_state_in reward_in done seeds_in = Inr self'
        \<and> ptr self' = (ptr self + int k) mod max_size self
        \<and> int k = (max_size self - ptr self) + (ptr self + int k) mod max_size self
        \<and> (\<forall>i < nat (max_size self - ptr self).
              slot self' (nat (ptr self) + i)
                = transition state_in action_in next_state_in reward_in done seeds_in i)
        \<and> (\<forall>j < nat ((ptr self + int k) mod max_size self).
              slot self' j = transition state_in action_in next_state_in reward_in done seeds_in
                               (nat (max_size self - ptr self) + j))"
proof -
  let ?N = "max_size self" and ?p = "ptr self"
  have N: "0 < ?N" and p: "0 \<le> ?p" "?p < ?N" using ok by (simp_all add: buffer_ok_def)
  have "(?p + int k) mod ?N = (?p + int k - ?N) mod ?N" by simp
  also have "\<dots> = ?p + int k - ?N" using wrap k p by (intro mod_pos_pos_trivial) simp_all
  finally have e: "(?p + int k) mod ?N = ?p + int k - ?N" .
  from Buffer_add_slots[OF ok b k] obtain self' where
    r: "Buffer_add self state_in action_in next_state_in reward_in done seeds_in = Inr self'"
      "ptr self' = (?p + int k) mod ?N"
    and slots: "\<And>j. j < nat ?N \<Longrightarrow> slot self' j =
                (if (int j - ?p) mod ?N < int k
                 then transition state_in action_in next_state_in reward_in done seeds_in
                        (nat ((int j - ?p) mod ?N))
                 else slot self j)"
    by blast
  have tail: "slot self' (nat ?p + i)
                = transition state_in action_in next_state_in reward_in done seeds_in i"
    if i: "i < nat (?N - ?p)" for i
  proof -
    have j: "nat ?p + i < nat ?N" using i p by linarith
    have "(int (nat ?p + i) - ?p) mod ?N = int i mod ?N" using p by simp
    also have "\<dots> = int i" using i p by (intro mod_pos_pos_trivial) linarith+
    finally have m: "(int (nat ?p + i) - ?p) mod ?N = int i" .
    have "int i < int k" using i wrap by linarith
    then show ?thesis using slots[OF j] m by simp
  qed
  have head: "slot self' j = transition state_in action_in next_state_in reward_in done seeds_in
                               (nat (?N - ?p) + j)"
    if j: "j < nat ((?p + int k) mod ?N)" for j
  proof -
    have j': "int j < ?p + int k - ?N" using j e by linarith
    have jN: "j < nat ?N" using j' k p by linarith
    have "(int j - ?p) mod ?N = int j - ?p + ?N"
      using j' k p by (intro mod_shift_neg) linarith+
    moreover have "int j - ?p + ?N = int (nat (?N - ?p) + j)" using p by linarith
    ultimately have m: "(int j - ?p) mod ?N = int (nat (?N - ?p) + j)" by simp
    have "int (nat (?N - ?p) + j) < int k" using j' p by linarith
    then show ?thesis using slots[OF jN] unfolding m by (simp only: if_True nat_int)
  qed
  show ?thesis using r e tail head by auto
qed

lemma add_5_3:
  "Buffer_add \<lparr>batch_size = bs, max_size = 5, ptr = 0, size' = 0,
               state = [0, 0, 0, 0, 0 :: 's::zero], action = [0, 0, 0, 0, 0],
               next_state = [0, 0, 0, 0, 0], reward = [0, 0, 0, 0, 0],
               not_done = [0, 0, 0, 0, 0], seeds = [0, 0, 0, 0, 0],
               prioritized = prio,
               tree = (if prio then \<lparr>nodes = [[0], [0, 0], [0, 0, 0, 0], [0, 0, 0, 0, 0, 0, 0, 0]]\<rparr>
                       else \<lparr>nodes = []\<rparr>),
               max_priority = (if prio then 1 else 0), beta = (if prio then 4 / 10 else 0)\<rparr>
      [s1, s2, s3] [a1, a2, a3] [n1, n2, n3] [r1, r2, r3] [d1, d2, d3] [g1, g2, g3]
   = Inr \<lparr>batch_size = bs, max_size = 5, ptr = 3, size' = 1,
          state = [s1, s2, s3, 0, 0], action = [a1, a2, a3, 0, 0],
          next_state = [n1, n2, n3, 0, 0], reward = [r1, r2, r3, 0, 0],
          not_done = [1 - d1, 1 - d2, 1 - d3, 0, 0], seeds = [g1, g2, g3, 0, 0],
          prioritized = prio,
          tree = (if prio then \<lparr>nodes = [[1], [1, 0], [1, 0, 0, 0], [1, 0, 0, 0, 0, 0, 0, 0]]\<rparr>
                  else \<lparr>nodes = []\<rparr>),
          max_priority = (if prio then 1 else 0), beta = (if prio then 4 / 10 else 0)\<rparr>"
  by (simp add: Buffer_add_def write_contiguous_def assign_range_def np_assign_def py_clip_def Let_def
      SumTree_set_def last_level_def np_get_def np_index_def np_add_at1_def)

lemma add_5_4:
  "Buffer_add \<lparr>batch_size = bs, max_size = 5, ptr = 3, size' = 1,
          state = [s1, s2, s3, 0, 0 :: 's::zero], action = [a1, a2, a3, 0, 0],
          next_state = [n1, n2, n3, 0, 0], reward = [r1, r2, r3, 0, 0],
          not_done = [1 - d1, 1 - d2, 1 - d3, 0, 0], seeds = [g1, g2, g3, 0, 0],
          prioritized = prio,
          tree = (if prio then \<lparr>nodes = [[1], [1, 0], [1, 0, 0, 0], [1, 0, 0, 0, 0, 0, 0, 0]]\<rparr>
                  else \<lparr>nodes = []\<rparr>),
          max_priority = (if prio then 1 else 0), beta = (if prio then 4 / 10 else 0)\<rparr>
      [s4, s5, s6, s7] [a4, a5, a6, a7] [n4, n5, n6, n7] [r4, r5, r6, r7] [d4, d5, d6, d7] [g4, g5, g6, g7]
   = Inr \<lparr>batch_size = bs, max_size = 5, ptr = 2, size' = 2,
          state = [s6, s7, s3, s4, s5], action = [a6, a7, a3, a4, a5],
          next_state = [n6, n7, n3, n4, n5], reward = [r6, r7, r3, r4, r5],
          not_done = [1 - d6, 1 - d7, 1 - d3, 1 - d4, 1 - d5], seeds = [g6, g7, g3, g4, g5],
          prioritized = prio,
          tree = (if prio then \<lparr>nodes = [[2], [2, 0], [1, 1, 0, 0], [1, 0, 0, 1, 0, 0, 0, 0]]\<rparr>
                  else \<lparr>nodes = []\<rparr>),
          max_priority = (if prio then 1 else 0), beta = (if prio then 4 / 10 else 0)\<rparr>"
  by (simp add: Buffer_add_def write_wrapped_def assign_from_def assign_upto_def np_assign_def
      py_clip_def slice_upto_def slice_from_def Let_def
      SumTree_set_def last_level_def np_get_def np_index_def np_add_at1_def)

lemma demo_buffer_ok: "buffer_ok demo_buffer"
  by (simp add: buffer_ok_def demo_buffer_def)

lemma demo_batch_ok: "batch_ok 4 [40, 50, 60, 70 :: int] [4, 5, 6, 7] [41, 51, 61, 71] [1, 2, 3, 4] [0, 0, 1, 0] [9, 9, 9, 9]"
  by (simp add: batch_ok_def)

lemma np_take_map:
  "np_take a ind = Inr xs \<Longrightarrow> xs = map (\<lambda>i. case np_get a i of Inl e \<Rightarrow> 0 | Inr p \<Rightarrow> p) ind"
  by (induction ind arbitrary: xs) (auto simp: bind_e_eq_Inr)

lemma Buffer_sample_prioritized:
  assumes "prioritized self" "Buffer_sample self query_value rand_ind = Inr (batch, self')"
  shows "\<exists>ind pri. SumTree_sample (tree self) query_value = Inr ind
      \<and> np_take (leaves (tree self)) ind = Inr pri \<and> pri \<noteq> [] \<and> b_ind batch = ind
      \<and> b_weights batch =
           map (\<lambda>w. w / fold max (tl (map (\<lambda>p. p powr (- beta self)) pri))
                               (hd (map (\<lambda>p. p powr (- beta self)) pri)))
               (map (\<lambda>p. p powr (- beta self)) pri)
      \<and> self' = self\<lparr>beta := min (beta self + beta_increment) 1\<rparr>"
  using assms
  by (auto simp: Buffer_sample_def bind_e_eq_Inr Let_def last_level_def np_max_def leaves_def
      split: if_splits)

lemma Buffer_sample_beta:
  assumes "prioritized self" "Buffer_sample self query_value rand_ind = Inr (batch, self')"
  shows "prioritized self' \<and> beta self' = min (beta self + beta_increment) 1"
  using Buffer_sample_prioritized[OF assms] assms(1) by auto

lemma beta_increment_nonneg: "0 \<le> beta_increment"
  by (simp add: beta_increment_def)

lemma sample_calls_beta:
  "prioritized self \<Longrightarrow> beta self \<le> 1 \<Longrightarrow> sample_calls self draws = Inr self' \<Longrightarrow>
   beta self' = min (beta self + real (length draws) * beta_increment) 1 \<and> beta self' \<le> 1"
proof (induction draws arbitrary: self)
  case Nil
  then show ?case by simp
next
  case (Cons d draws)
  obtain q r where d: "d = (q, r)" by (cases d)
  from Cons.prems(3) obtain batch s1 where
    s1: "Buffer_sample self q r = Inr (batch, s1)" and rest: "sample_calls s1 draws = Inr self'"
    unfolding d by (auto simp: bind_e_eq_Inr)
  have p1: "prioritized s1" and b1: "beta s1 = min (beta self + beta_increment) 1"
    using Buffer_sample_beta[OF Cons.prems(1) s1] by simp_all
  have le1: "beta s1 \<le> 1" using b1 by simp
  from Cons.IH[OF p1 le1 rest] have
    r: "beta self' = min (beta s1 + real (length draws) * beta_increment) 1" "beta self' \<le> 1"
    by simp_all
  have n: "0 \<le> real (length draws) * beta_increment" using beta_increment_nonneg by simp
  have "min (min (beta self + beta_increment) 1 + real (length draws) * beta_increment) 1
        = min (beta self + (1 + real (length draws)) * beta_increment) 1"
    using n by (auto simp: min_def algebra_simps)
  then show ?case using r b1 by simp
qed

lemma demo_sample_1:
  "prioritized (demo_per\<lparr>beta := x\<rparr>) \<Longrightarrow>
   Buffer_sample (demo_per\<lparr>beta := x\<rparr>) [1 / 2] []
   = Inr (\<lparr>b_state = [10], b_action = [1], b_next_state = [11], b_reward = [5],
            b_not_done = [1], b_seeds = [8], b_ind = [0], b_weights = [1]\<rparr>,
          demo_per\<lparr>beta := min (x + beta_increment) 1\<rparr>)"
  by (simp add: demo_per_def Buffer_sample_def SumTree_sample_def last_level_def np_get_def
      np_index_def np_max_def to_long_def Let_def)

lemma member_le_sum_list_real:
  "\<forall>x\<in>set xs. 0 \<le> x \<Longrightarrow> y \<in> set xs \<Longrightarrow> y \<le> sum_list (xs :: real list)"
proof (induction xs)
  case Nil
  then show ?case by simp
next
  case (Cons x xs)
  have "0 \<le> sum_list xs" using Cons.prems(1) by (intro sum_list_nonneg) simp
  then show ?case using Cons by auto
qed

lemma np_get_member: "np_get a i = Inr p \<Longrightarrow> p \<in> set a"
  by (auto simp: np_get_def np_index_def bind_e_eq_Inr split: if_splits)

lemma total_priority_pos:
  assumes "sumtree_ok c t" "\<forall>p\<in>set (leaves t). 0 \<le> p" "0 < leaf_priority t i"
  shows "0 < total_priority t"
proof -
  obtain p where p: "np_get (leaves t) i = Inr p" "0 < p"
    using assms(3) by (auto simp: leaf_priority_def split: sum.splits)
  have "p \<le> sum_list (leaves t)"
    by (rule member_le_sum_list_real[OF assms(2) np_get_member[OF p(1)]])
  then show ?thesis using p(2) sumtree_ok_total[OF assms(1)] by simp
qed

lemma fold_max_Max:
  assumes "ws \<noteq> []"
  shows "fold max (tl ws) (hd ws) = Max (set (ws :: real list))"
proof (cases ws)
  case Nil
  then show ?thesis using assms by simp
next
  case (Cons a l)
  then show ?thesis using Max.set_eq_fold[of a l] by simp
qed

lemma Max_image_divide:
  assumes "finite S" "S \<noteq> {}" "0 < (c::real)"
  shows "Max ((\<lambda>x. f x / c) ` S) = Max (f ` S) / c"
proof -
  have "mono (\<lambda>x. x / c)" using assms(3) by (intro monoI divide_right_mono) simp_all
  from mono_Max_commute[OF this, of "f ` S"] assms(1,2)
  show ?thesis by (simp add: image_image)
qed

lemma ceil_log2_2: "ceil_log2 2 = 1"
  by code_simp

lemma demo_annealed_ok: "buffer_ok demo_annealed"
  by (simp add: buffer_ok_def demo_annealed_def demo_per_def sumtree_ok_def pair_ok_def leaves_def
      ceil_log2_2 less_Suc_eq)

lemma demo_sample_2: "Buffer_sample demo_annealed [1 / 2, 3] [] = Inr (demo_batch, demo_annealed)"
  by (simp add: demo_annealed_def demo_batch_def demo_per_def Buffer_sample_def SumTree_sample_def
      last_level_def np_get_def np_index_def np_max_def to_long_def Let_def powr_minus_divide
      beta_increment_def)


subsection \<open>The categorical projection\<close>

lemma bounds_of_int:
  "bounds atoms_arg (of_int k) =
     (if 0 < k then (k - 1, k) else if k < atoms_arg - 1 then (k, k + 1) else (k, k))"
  by (simp add: bounds_def nudge_low_def nudge_up_def Let_def)

lemma bounds_in_range:
  assumes "0 \<le> b" "b \<le> real_of_int (atoms_arg - 1)" "2 \<le> atoms_arg"
  shows "0 \<le> fst (bounds atoms_arg b) \<and> fst (bounds atoms_arg b) < atoms_arg
       \<and> 0 \<le> snd (bounds atoms_arg b) \<and> snd (bounds atoms_arg b) < atoms_arg
       \<and> snd (bounds atoms_arg b) - fst (bounds atoms_arg b) = 1"
proof (cases "b = of_int \<lfloor>b\<rfloor>")
  case True
  then obtain k where k: "b = of_int k" by metis
  have "0 \<le> k" "k \<le> atoms_arg - 1" using assms k by simp_all
  then show ?thesis using assms(3) unfolding k bounds_of_int by auto
next
  case False
  then have c: "\<lceil>b\<rceil> = \<lfloor>b\<rfloor> + 1" by (simp add: ceiling_altdef)
  have f0: "0 \<le> \<lfloor>b\<rfloor>" using assms(1) by simp
  have "\<lceil>b\<rceil> \<le> atoms_arg - 1" by (rule ceiling_le[OF assms(2)])
  then show ?thesis using c f0 by (simp add: bounds_def nudge_low_def nudge_up_def Let_def)
qed

lemma b_in_range:
  assumes "vmin < vmax" "2 \<le> atoms_arg" "dz = (vmax - vmin) / real_of_int (atoms_arg - 1)"
  shows "0 \<le> (clamp vmin vmax x - vmin) / dz \<and> (clamp vmin vmax x - vmin) / dz \<le> real_of_int (atoms_arg - 1)"
proof -
  have a: "0 < real_of_int (atoms_arg - 1)" using assms(2) by simp
  have dz: "0 < dz" using assms(1,3) a by simp
  have c: "0 \<le> clamp vmin vmax x - vmin" "clamp vmin vmax x - vmin \<le> vmax - vmin"
    using assms(1) by (simp_all add: clamp_def)
  have "(clamp vmin vmax x - vmin) / dz \<le> (vmax - vmin) / dz"
    using c(2) dz by (simp add: divide_right_mono)
  also have "(vmax - vmin) / dz = real_of_int (atoms_arg - 1)"
    using assms(1,3) a by simp
  finally show ?thesis using c(1) dz by simp
qed

lemma sum_list_update_add:
  "k < length xs \<Longrightarrow> sum_list (xs[k := xs ! k + v]) = sum_list xs + (v::real)"
proof (induction xs arbitrary: k)
  case Nil
  then show ?case by simp
next
  case (Cons x xs)
  then show ?case by (cases k) simp_all
qed

lemma sum_seg_update:
  assumes "j < length m"
  shows "sum_list (take n (drop lo (m[j := m ! j + v])))
         = sum_list (take n (drop lo m)) + (if lo \<le> j \<and> j < lo + n then v else (0::real))"
proof (cases "j < lo")
  case True
  then show ?thesis by simp
next
  case False
  then have lo: "lo \<le> j" by simp
  have d: "drop lo (m[j := m ! j + v]) = (drop lo m)[j - lo := m ! j + v]"
    using lo by (simp add: drop_update_swap)
  show ?thesis
  proof (cases "j < lo + n")
    case True
    have t: "j - lo < length (take n (drop lo m))" using True lo assms by auto
    have e: "take n (drop lo m) ! (j - lo) = m ! j" using True lo assms by simp
    have "sum_list (take n ((drop lo m)[j - lo := m ! j + v]))
          = sum_list ((take n (drop lo m))[j - lo := take n (drop lo m) ! (j - lo) + v])"
      by (simp add: take_update_swap e)
    also have "\<dots> = sum_list (take n (drop lo m)) + v" by (rule sum_list_update_add[OF t])
    finally show ?thesis using d True lo by simp
  next
    case False
    then have "n \<le> j - lo" using lo by simp
    then show ?thesis using d False by simp
  qed
qed

lemma index_add_ok:
  "\<forall>i\<in>set idx. 0 \<le> i \<and> i < int (length m) \<Longrightarrow> length idx = length vs \<Longrightarrow>
   \<exists>m'. index_add m idx vs = Inr m' \<and> length m' = length m
     \<and> (\<forall>lo n. sum_list (take n (drop lo m')) = sum_list (take n (drop lo m)) + seg_contrib lo n idx vs)"
proof (induction idx arbitrary: m vs)
  case Nil
  then show ?case by (simp add: seg_contrib_def)
next
  case (Cons i idx)
  then obtain v vs' where vs: "vs = v # vs'" by (cases vs) auto
  have ir: "0 \<le> i" "i < int (length m)" using Cons.prems(1) by simp_all
  let ?m1 = "m[nat i := m ! nat i + v]"
  have j: "nat i < length m" using ir by linarith
  have rng: "\<forall>i\<in>set idx. 0 \<le> i \<and> i < int (length ?m1)" using Cons.prems(1) by simp
  have len: "length idx = length vs'" using Cons.prems(2) vs by simp
  from Cons.IH[OF rng len] obtain m' where
    m': "index_add ?m1 idx vs' = Inr m'" "length m' = length ?m1"
    and s: "\<And>lo n. sum_list (take n (drop lo m')) = sum_list (take n (drop lo ?m1)) + seg_contrib lo n idx vs'"
    by blast
  have c: "(lo \<le> nat i \<and> nat i < lo + n) = (int lo \<le> i \<and> i < int (lo + n))" for lo n
    using ir by linarith
  have "sum_list (take n (drop lo m')) = sum_list (take n (drop lo m)) + seg_contrib lo n (i # idx) vs" for lo n
    unfolding s sum_seg_update[OF j] vs c by (simp add: seg_contrib_def)
  then show ?case using m' ir vs by simp
qed

lemma seg_contrib_concat:
  "length I = length V \<Longrightarrow> \<forall>(ix, vs)\<in>set (zip I V). length ix = length vs \<Longrightarrow>
   seg_contrib lo n (concat I) (concat V) = sum_list (map (\<lambda>(ix, vs). seg_contrib lo n ix vs) (zip I V))"
proof (induction I V rule: list_induct2)
  case Nil
  then show ?case by (simp add: seg_contrib_def)
next
  case (Cons ix I vs V)
  have l: "length ix = length vs" using Cons.prems by simp
  have "seg_contrib lo n (ix @ concat I) (vs @ concat V)
        = seg_contrib lo n ix vs + seg_contrib lo n (concat I) (concat V)"
    using l by (simp add: seg_contrib_def)
  then show ?case using Cons by simp
qed

lemma seg_contrib_all:
  "length ix = length vs \<Longrightarrow> \<forall>i\<in>set ix. int lo \<le> i \<and> i < int (lo + n) \<Longrightarrow>
   seg_contrib lo n ix vs = sum_list vs"
proof (induction ix vs rule: list_induct2)
  case Nil
  then show ?case by (simp add: seg_contrib_def)
next
  case (Cons i ix v vs)
  then show ?case by (simp add: seg_contrib_def)
qed

lemma seg_contrib_none:
  "\<forall>i\<in>set ix. \<not> (int lo \<le> i \<and> i < int (lo + n)) \<Longrightarrow> seg_contrib lo n ix vs = 0"
proof (induction ix arbitrary: vs)
  case Nil
  then show ?case by (simp add: seg_contrib_def)
next
  case (Cons i ix)
  then show ?case by (cases vs) (auto simp: seg_contrib_def)
qed

lemma length_concat_eq:
  "length I = length V \<Longrightarrow> \<forall>r<length I. length (I ! r) = length (V ! r) \<Longrightarrow>
   length (concat I) = length (concat V)"
proof (induction I V rule: list_induct2)
  case Nil
  then show ?case by simp
next
  case (Cons x xs y ys)
  have "length x = length y" using Cons.prems by auto
  moreover have "\<forall>r<length xs. length (xs ! r) = length (ys ! r)" using Cons.prems by auto
  ultimately show ?case using Cons.IH by simp
qed

lemma seg_contrib_rows:
  assumes I: "length I = B" and V: "length V = B"
    and len: "\<forall>k<B. length (I ! k) = length (V ! k)"
    and rng: "\<forall>k<B. \<forall>i\<in>set (I ! k). int (k * A) \<le> i \<and> i < int (k * A + A)"
    and r: "r < B"
  shows "seg_contrib (r * A) A (concat I) (concat V) = sum_list (V ! r)"
proof -
  have z: "\<forall>(ix, vs)\<in>set (zip I V). length ix = length vs"
    using len I V by (auto simp: set_zip)
  have "seg_contrib (r * A) A (concat I) (concat V)
        = sum_list (map (\<lambda>(ix, vs). seg_contrib (r * A) A ix vs) (zip I V))"
    using seg_contrib_concat[OF _ z] I V by simp
  also have "\<dots> = (\<Sum>k = 0..<B. seg_contrib (r * A) A (I ! k) (V ! k))"
    using I V by (simp add: sum_list_sum_nth)
  also have "\<dots> = (\<Sum>k = 0..<B. if k = r then sum_list (V ! r) else 0)"
  proof (rule sum.cong[OF refl])
    fix k assume "k \<in> {0..<B}"
    then have k: "k < B" by simp
    show "seg_contrib (r * A) A (I ! k) (V ! k) = (if k = r then sum_list (V ! r) else 0)"
    proof (cases "k = r")
      case True
      then show ?thesis using seg_contrib_all[of "I ! r" "V ! r" "r * A" A] len rng r by simp
    next
      case False
      have "\<forall>i\<in>set (I ! k). \<not> (int (r * A) \<le> i \<and> i < int (r * A + A))"
      proof
        fix i assume i: "i \<in> set (I ! k)"
        then have b: "int (k * A) \<le> i" "i < int (k * A + A)" using rng k by auto
        show "\<not> (int (r * A) \<le> i \<and> i < int (r * A + A))"
        proof (cases "k < r")
          case True
          then have "Suc k * A \<le> r * A" by (intro mult_le_mono1) simp
          then have "int (k * A + A) \<le> int (r * A)" by (simp only: of_nat_le_iff mult_Suc add.commute)
          then show ?thesis using b by linarith
        next
          case False
          then have "Suc r * A \<le> k * A" using \<open>k \<noteq> r\<close> by (intro mult_le_mono1) simp
          then have "int (r * A + A) \<le> int (k * A)" by (simp only: of_nat_le_iff mult_Suc add.commute)
          then show ?thesis using b by linarith
        qed
      qed
      then show ?thesis using False by (simp add: seg_contrib_none)
    qed
  qed
  also have "\<dots> = sum_list (V ! r)" using r by simp
  finally show ?thesis .
qed

lemma concat_in_range:
  assumes I: "length I = B"
    and rng: "\<forall>k<B. \<forall>i\<in>set (I ! k). int (k * A) \<le> i \<and> i < int (k * A + A)"
  shows "\<forall>i\<in>set (concat I). 0 \<le> i \<and> i < int (B * A)"
proof
  fix i assume "i \<in> set (concat I)"
  then obtain xs where xs: "xs \<in> set I" "i \<in> set xs" by auto
  then obtain k where k: "k < B" "i \<in> set (I ! k)" using I by (metis in_set_conv_nth)
  then have b: "int (k * A) \<le> i" "i < int (k * A + A)" using rng by auto
  have "Suc k * A \<le> B * A" using k(1) by (intro mult_le_mono1) simp
  then have "int (k * A + A) \<le> int (B * A)" by (simp only: of_nat_le_iff mult_Suc add.commute)
  then show "0 \<le> i \<and> i < int (B * A)" using b by linarith
qed

lemma row_mass:
  assumes "\<forall>p\<in>set prow. real_of_int (snd (bounds a (g p))) - real_of_int (fst (bounds a (g p))) = 1"
  shows "sum_list (map2 (\<lambda>p (u, x). p * (real_of_int u - x)) prow
            (zip (map (\<lambda>x. snd (bounds a x)) (map g prow)) (map g prow)))
       + sum_list (map2 (\<lambda>p (l, x). p * (x - real_of_int l)) prow
            (zip (map (\<lambda>x. fst (bounds a x)) (map g prow)) (map g prow)))
       = sum_list prow"
  using assms
proof (induction prow)
  case Nil
  then show ?case by simp
next
  case (Cons p prow)
  have "p * (real_of_int (snd (bounds a (g p))) - g p) + p * (g p - real_of_int (fst (bounds a (g p))))
        = p * (real_of_int (snd (bounds a (g p))) - real_of_int (fst (bounds a (g p))))"
    by (simp add: algebra_simps)
  also have "\<dots> = p" using Cons.prems by simp
  finally have h: "p * (real_of_int (snd (bounds a (g p))) - g p)
                 + p * (g p - real_of_int (fst (bounds a (g p)))) = p" .
  have "\<forall>p\<in>set prow. real_of_int (snd (bounds a (g p))) - real_of_int (fst (bounds a (g p))) = 1"
    using Cons.prems by simp
  from Cons.IH[OF this] h show ?case by simp
qed

lemma demo_rainbow_init: "Rainbow_init 3 (- 1) 1 (1 / 2) 1 2 = Inr demo_rainbow"
  by (simp add: Rainbow_init_def demo_rainbow_def)

lemma demo_project:
  "project demo_rainbow [0, 5] [1, 0] [[1 / 4, 1 / 2, 1 / 4], [1, 0, 0]]
   = Inr [[0, 13 / 16, 3 / 16], [0, 0, 1]]"
  by code_simp

section \<open>The claims\<close>

text \<open>
  Claim C1, evaluated on the code: a prioritized buffer of capacity 4 receives a batch of two
  transitions. Both are stored, yet \<^verbatim>\<open>Buffer.add\<close> calls \<^verbatim>\<open>SumTree.set\<close> once, for slot
  \<^verbatim>\<open>self.ptr\<close>: the leaf of slot 1 keeps priority 0 while \<^verbatim>\<open>max_priority\<close> is 1.
\<close>

theorem Buffer_add_one_priority:
  "bind_e (Buffer_init 2 4 True) (\<lambda>b0.
   bind_e (Buffer_add (b0 :: int Buffer) [10, 20] [1, 2] [11, 21] [5, 6] [0, 0] [8, 8]) (\<lambda>b1.
   Inr (state b1, max_priority b1, leaves (tree b1))))
   = Inr ([10, 20, 0, 0], 1, [1, 0, 0, 0])"
  by code_simp

text \<open>
  Claim C2, evaluated on the code: an empty buffer of capacity 5 receives a batch of three
  transitions. The write pointer advances by three, the occupancy count \<^verbatim>\<open>size\<close> by one.
\<close>

theorem Buffer_add_size_by_one:
  "bind_e (Buffer_init 2 5 False) (\<lambda>b0.
   bind_e (Buffer_add (b0 :: int Buffer) [10, 20, 30] [1, 2, 3] [11, 21, 31] [5, 6, 7] [0, 0, 1] [8, 8, 9]) (\<lambda>b1.
   Inr (state b1, ptr b1, size' b1)))
   = Inr ([10, 20, 30, 0, 0], 3, 1)"
  by code_simp



text \<open>
  Claim C4. Starting from the all-zero tree that \<^verbatim>\<open>SumTree.__init__\<close> builds, every finite
  sequence of \<^verbatim>\<open>set\<close> and \<^verbatim>\<open>batch_set\<close> calls with indices in \<open>[0, capacity)\<close> runs
  without an exception, and afterwards every internal node is the sum of its two children
  and the root is the sum of all leaves (in exact arithmetic).
\<close>

theorem sumtree_invariant:
  assumes "SumTree_init capacity = Inr t0" and "list_all (op_in_range capacity) ops"
  shows "\<exists>t. run_ops t0 ops = Inr t \<and> children_sum t \<and> total_priority t = sum_list (leaves t)"
proof -
  have "\<forall>x\<in>set ops. op_in_range capacity x" using assms(2) by (simp add: list_all_iff)
  from run_ops_ok[OF SumTree_init_ok[OF assms(1)] this]
  show ?thesis using sumtree_ok_children sumtree_ok_total by blast
qed

theorem sumtree_invariant_witness:
  "SumTree_init 3 = Inr \<lparr>nodes = [[0], [0, 0], [0, 0, 0, 0]]\<rparr>
   \<and> list_all (op_in_range 3) [Set 0 2, Batch_set [2, 1, 2] [5, 3, 7], Set 1 4]
   \<and> run_ops \<lparr>nodes = [[0], [0, 0], [0, 0, 0, 0]]\<rparr> [Set 0 2, Batch_set [2, 1, 2] [5, 3, 7], Set 1 4]
       = Inr \<lparr>nodes = [[11], [6, 5], [2, 4, 5, 0]]\<rparr>
   \<and> children_sum \<lparr>nodes = [[11], [6, 5], [2, 4, 5, 0]]\<rparr>
   \<and> total_priority \<lparr>nodes = [[11], [6, 5], [2, 4, 5, 0]]\<rparr>
       = sum_list (leaves \<lparr>nodes = [[11], [6, 5], [2, 4, 5, 0]]\<rparr>)"
proof -
  have h1: "SumTree_init 3 = Inr \<lparr>nodes = [[0], [0, 0], [0, 0, 0, 0]]\<rparr>"
    by code_simp
  have h2: "list_all (op_in_range 3) [Set 0 2, Batch_set [2, 1, 2] [5, 3, 7], Set 1 4]"
    by simp
  have h3: "run_ops \<lparr>nodes = [[0], [0, 0], [0, 0, 0, 0]]\<rparr> [Set 0 2, Batch_set [2, 1, 2] [5, 3, 7], Set 1 4]
       = Inr \<lparr>nodes = [[11], [6, 5], [2, 4, 5, 0]]\<rparr>"
    by code_simp
  show ?thesis using sumtree_invariant[OF h1 h2] h1 h2 h3 by simp
qed

text \<open>
  Claim C5, as stated, fails: the second update reads the \<open>low\<close> that the first one has
  just decremented, so at an interior integer \<open>b = 2\<close> (five atoms) only \<open>low\<close> moves.
\<close>

theorem bounds_counterexample:
  "\<lfloor>2::real\<rfloor> = \<lceil>2::real\<rceil> \<and> 0 < \<lceil>2::real\<rceil> \<and> \<lfloor>2::real\<rfloor> < 5 - 1
   \<and> bounds 5 2 = (1, 2) \<and> bounds 5 2 \<noteq> (\<lfloor>2::real\<rfloor> - 1, \<lceil>2::real\<rceil> + 1)"
  by (simp add: bounds_def nudge_low_def nudge_up_def Let_def)

text \<open>
  Claim C5, amended. For an entry \<open>b\<close> that is an integer \<open>k\<close> (so \<open>low = up = k\<close>): if
  \<open>k > 0\<close> then \<open>low\<close> is decremented and \<open>up\<close> stays \<open>k\<close>; otherwise \<open>low\<close> stays and
  \<open>up\<close> is incremented exactly when \<open>k < atoms - 1\<close>. The two updates never both apply.
\<close>

theorem bounds_integer:
  assumes "b = of_int k"
  shows "bounds atoms_arg b =
     (if 0 < k then (k - 1, k) else if k < atoms_arg - 1 then (k, k + 1) else (k, k))"
  using assms bounds_of_int by simp

theorem bounds_integer_witness:
  "(2::real) = of_int 2 \<and> bounds 5 2 = (1, 2) \<and> (0::real) = of_int 0 \<and> bounds 5 0 = (0, 1)"
  using bounds_integer[of 2 2 5] bounds_integer[of 0 0 5] by simp

text \<open>
  Claim C6. On a well-formed prioritized buffer whose priorities are non-negative, a
  \<^verbatim>\<open>sample\<close> call that returns and whose sampled slots all have positive priority gives
  each sampled index the weight \<open>(leaf_priority index / total) powr - beta\<close> divided by the
  largest such weight of the batch; the largest returned weight is 1 and all returned weights
  are positive (in exact arithmetic).
\<close>

theorem importance_weights:
  assumes "buffer_ok self" and "prioritized self"
    and "list_all (\<lambda>p. 0 \<le> p) (leaves (tree self))"
    and "Buffer_sample self query_value rand_ind = Inr (batch, self')"
    and "list_all (\<lambda>i. 0 < leaf_priority (tree self) i) (b_ind batch)"
  shows "b_weights batch =
           map (\<lambda>i. (leaf_priority (tree self) i / total_priority (tree self)) powr (- beta self)
                     / Max ((\<lambda>j. (leaf_priority (tree self) j / total_priority (tree self))
                                    powr (- beta self)) ` set (b_ind batch)))
               (b_ind batch)
       \<and> Max (set (b_weights batch)) = 1
       \<and> list_all (\<lambda>w. 0 < w) (b_weights batch)"
proof -
  let ?t = "tree self" and ?T = "total_priority (tree self)" and ?e = "- beta self"
  define w where "w i = leaf_priority ?t i powr ?e" for i
  from Buffer_sample_prioritized[OF assms(2,4)] obtain ind pri where
    tk: "np_take (leaves ?t) ind = Inr pri" and ne: "pri \<noteq> []" and ind: "b_ind batch = ind"
    and bw: "b_weights batch =
           map (\<lambda>w. w / fold max (tl (map (\<lambda>p. p powr ?e) pri)) (hd (map (\<lambda>p. p powr ?e) pri)))
               (map (\<lambda>p. p powr ?e) pri)"
    by blast
  have pri: "pri = map (leaf_priority ?t) ind"
    using np_take_map[OF tk] by (simp add: leaf_priority_def)
  have ine: "ind \<noteq> []" using ne pri by simp
  have ws: "map (\<lambda>p. p powr ?e) pri = map w ind" by (simp add: pri w_def)
  have pos: "0 < leaf_priority ?t i" if "i \<in> set ind" for i
    using assms(5) ind that by (simp add: list_all_iff)
  have wpos: "0 < w i" if "i \<in> set ind" for i using pos[OF that] by (simp add: w_def)
  define m where "m = Max (w ` set ind)"
  have fin: "finite (set ind)" "set ind \<noteq> {}" using ine by simp_all
  have "m \<in> w ` set ind" unfolding m_def using fin by (intro Max_in) simp_all
  then have mpos: "0 < m" using wpos by auto
  have fm: "fold max (tl (map w ind)) (hd (map w ind)) = m"
    using fold_max_Max[of "map w ind"] ine by (simp add: m_def)
  have weights: "b_weights batch = map (\<lambda>i. w i / m) ind"
    unfolding bw ws fm by simp
  have allpos: "list_all (\<lambda>x. 0 < x) (b_weights batch)"
    using wpos mpos by (simp add: weights list_all_iff)
  have "Max (set (b_weights batch)) = Max ((\<lambda>i. w i / m) ` set ind)" by (simp add: weights)
  also have "\<dots> = Max (w ` set ind) / m" by (rule Max_image_divide[OF fin mpos])
  also have "\<dots> = 1" using mpos by (simp add: m_def)
  finally have max1: "Max (set (b_weights batch)) = 1" .
  have ok: "sumtree_ok (max_size self) ?t" using assms(1,2) by (simp add: buffer_ok_def)
  obtain i0 where i0: "i0 \<in> set ind" using ine by (cases ind) auto
  have nonneg: "\<forall>p\<in>set (leaves ?t). 0 \<le> p" using assms(3) by (simp add: list_all_iff)
  have T: "0 < ?T" by (rule total_priority_pos[OF ok nonneg pos[OF i0]])
  define c where "c = ?T powr ?e"
  have cpos: "0 < c" using T by (simp add: c_def)
  have f: "(leaf_priority ?t i / ?T) powr ?e = w i / c" for i
    by (simp add: powr_divide w_def c_def)
  have mx: "Max ((\<lambda>j. w j / c) ` set ind) = m / c"
    unfolding m_def by (rule Max_image_divide[OF fin cpos])
  have "(leaf_priority ?t i / ?T) powr ?e
          / Max ((\<lambda>j. (leaf_priority ?t j / ?T) powr ?e) ` set ind) = w i / m" for i
    unfolding f mx using cpos mpos by simp
  then have formula: "b_weights batch =
           map (\<lambda>i. (leaf_priority ?t i / ?T) powr ?e
                     / Max ((\<lambda>j. (leaf_priority ?t j / ?T) powr ?e) ` set ind)) ind"
    by (simp add: weights)
  show ?thesis using formula max1 allpos ind by simp
qed

theorem importance_weights_witness:
  "buffer_ok demo_annealed \<and> prioritized demo_annealed
   \<and> list_all (\<lambda>p. 0 \<le> p) (leaves (tree demo_annealed))
   \<and> Buffer_sample demo_annealed [1 / 2, 3] [] = Inr (demo_batch, demo_annealed)
   \<and> list_all (\<lambda>i. 0 < leaf_priority (tree demo_annealed) i) (b_ind demo_batch)
   \<and> b_ind demo_batch = [0, 1] \<and> b_weights demo_batch = [1, 1 / 4]
   \<and> b_weights demo_batch =
         map (\<lambda>i. (leaf_priority (tree demo_annealed) i / total_priority (tree demo_annealed))
                      powr (- beta demo_annealed)
                   / Max ((\<lambda>j. (leaf_priority (tree demo_annealed) j
                                   / total_priority (tree demo_annealed))
                                  powr (- beta demo_annealed)) ` set (b_ind demo_batch)))
             (b_ind demo_batch)
   \<and> Max (set (b_weights demo_batch)) = 1
   \<and> list_all (\<lambda>w. 0 < w) (b_weights demo_batch)"
proof -
  have h2: "prioritized demo_annealed" by (simp add: demo_annealed_def demo_per_def)
  have h3: "list_all (\<lambda>p. 0 \<le> p) (leaves (tree demo_annealed))"
    by (simp add: demo_annealed_def demo_per_def leaves_def)
  have h5: "list_all (\<lambda>i. 0 < leaf_priority (tree demo_annealed) i) (b_ind demo_batch)"
    by (simp add: demo_annealed_def demo_batch_def demo_per_def leaf_priority_def leaves_def
        np_get_def np_index_def)
  have v: "b_ind demo_batch = [0, 1]" "b_weights demo_batch = [1, 1 / 4]"
    by (simp_all add: demo_batch_def)
  from importance_weights[OF demo_annealed_ok h2 h3 demo_sample_2 h5]
  show ?thesis using demo_annealed_ok h2 h3 demo_sample_2 h5 v by blast
qed

text \<open>
  Claim C7. For a learner with at least two atoms and \<open>V_min < V_max\<close>, every reward,
  discount, horizon and continuation flag, and every batch whose rows have \<open>atoms\<close> entries
  summing to 1, the projection succeeds and every row of the projected distribution sums
  to 1 (in exact arithmetic).
\<close>

theorem project_conserves_mass:
  assumes init: "Rainbow_init atoms_arg vmin vmax g n bs = Inr self"
    and at: "2 \<le> atoms_arg" and v: "vmin < vmax" and bs: "0 \<le> bs"
    and lp: "length pns_a = nat bs" and lr: "length reward_in = nat bs"
    and ln: "length not_done_in = nat bs"
    and rows: "list_all (\<lambda>row. length row = nat atoms_arg \<and> sum_list row = 1) pns_a"
  shows "\<exists>m. project self reward_in not_done_in pns_a = Inr m \<and> length m = nat bs
           \<and> list_all (\<lambda>row. length row = nat atoms_arg \<and> sum_list row = 1) m"
proof -
  define A where "A = nat atoms_arg"
  define B where "B = nat bs"
  define dz where "dz = (vmax - vmin) / real_of_int (atoms_arg - 1)"
  have self: "atoms self = atoms_arg" "V_min self = vmin" "V_max self = vmax" "delta_z self = dz"
    "gamma self = g" "multi_step self = n" "train_batch_size self = bs"
    using init by (auto simp: Rainbow_init_def dz_def split: if_splits)
  have iA: "int A = atoms_arg" using at by (simp add: A_def)
  have prow: "length (pns_a ! k) = A" "sum_list (pns_a ! k) = 1" if "k < B" for k
    using rows that lp by (simp_all add: list_all_length A_def B_def)
  define gf where "gf k = (\<lambda>p. (clamp vmin vmax (reward_in ! k + not_done_in ! k * g ^ n * p) - vmin) / dz)" for k
  define b where "b = map2 (\<lambda>(rw, nd) row. b_row self rw nd row) (zip reward_in not_done_in) pns_a"
  define low where "low = map (map (\<lambda>x. fst (bounds (atoms self) x))) b"
  define up where "up = map (map (\<lambda>x. snd (bounds (atoms self) x))) b"
  define offset where "offset = map (\<lambda>r. int r * atoms self) [0 ..< B]"
  define low_off where "low_off = map2 (\<lambda>off row. map (\<lambda>l. l + off) row) offset low"
  define up_off where "up_off = map2 (\<lambda>off row. map (\<lambda>u. u + off) row) offset up"
  define src_low where "src_low =
     map2 (\<lambda>prow (urow, brow). map2 (\<lambda>p (u, x). p * (real_of_int u - x)) prow (zip urow brow))
       pns_a (zip up b)"
  define src_up where "src_up =
     map2 (\<lambda>prow (lrow, brow). map2 (\<lambda>p (l, x). p * (x - real_of_int l)) prow (zip lrow brow))
       pns_a (zip low b)"
  define m0 :: "real list" where "m0 = replicate (B * A) 0"
  have shape: "\<not> (train_batch_size self < 0 \<or> atoms self < 0 \<or> length pns_a \<noteq> B
      \<or> length reward_in \<noteq> B \<or> length not_done_in \<noteq> B \<or> (\<exists>row\<in>set pns_a. length row \<noteq> A))"
    using bs at lp lr ln rows by (auto simp: self B_def A_def list_all_iff)
  have proj: "project self reward_in not_done_in pns_a =
        bind_e (index_add m0 (concat low_off) (concat src_low)) (\<lambda>m1.
        bind_e (index_add m1 (concat up_off) (concat src_up)) (\<lambda>m2.
        Inr (map (\<lambda>r. take A (drop (r * A) m2)) [0 ..< B])))"
    using shape unfolding project_def Let_def b_def low_def up_def offset_def low_off_def
      up_off_def src_low_def src_up_def m0_def A_def B_def self
    by (simp only: if_False self)
  have lens: "length b = B" "length low = B" "length up = B" "length offset = B"
    "length low_off = B" "length up_off = B" "length src_low = B" "length src_up = B"
    using lp lr ln by (simp_all add: b_def low_def up_def offset_def low_off_def up_off_def
        src_low_def src_up_def B_def)
  have bk: "b ! k = map (gf k) (pns_a ! k)" if "k < B" for k
    using that lp lr ln by (simp add: b_def b_row_def gf_def self B_def)
  have lowk: "low ! k = map (\<lambda>x. fst (bounds atoms_arg x)) (map (gf k) (pns_a ! k))" if "k < B" for k
    using that lens bk by (simp add: low_def self)
  have upk: "up ! k = map (\<lambda>x. snd (bounds atoms_arg x)) (map (gf k) (pns_a ! k))" if "k < B" for k
    using that lens bk by (simp add: up_def self)
  have low_offk: "low_off ! k = map (\<lambda>l. l + int k * atoms_arg) (low ! k)" if "k < B" for k
    using that lens by (simp add: low_off_def offset_def self)
  have up_offk: "up_off ! k = map (\<lambda>u. u + int k * atoms_arg) (up ! k)" if "k < B" for k
    using that lens by (simp add: up_off_def offset_def self)
  have src_lowk: "src_low ! k = map2 (\<lambda>p (u, x). p * (real_of_int u - x)) (pns_a ! k)
                     (zip (map (\<lambda>x. snd (bounds atoms_arg x)) (map (gf k) (pns_a ! k)))
                          (map (gf k) (pns_a ! k)))" if "k < B" for k
    using that lens lp upk[OF that] bk[OF that] by (simp add: src_low_def B_def)
  have src_upk: "src_up ! k = map2 (\<lambda>p (l, x). p * (x - real_of_int l)) (pns_a ! k)
                     (zip (map (\<lambda>x. fst (bounds atoms_arg x)) (map (gf k) (pns_a ! k)))
                          (map (gf k) (pns_a ! k)))" if "k < B" for k
    using that lens lp lowk[OF that] bk[OF that] by (simp add: src_up_def B_def)
  have bnd: "0 \<le> fst (bounds atoms_arg (gf k p)) \<and> fst (bounds atoms_arg (gf k p)) < atoms_arg
       \<and> 0 \<le> snd (bounds atoms_arg (gf k p)) \<and> snd (bounds atoms_arg (gf k p)) < atoms_arg
       \<and> snd (bounds atoms_arg (gf k p)) - fst (bounds atoms_arg (gf k p)) = 1" for k p
    unfolding gf_def using b_in_range[OF v at dz_def] by (intro bounds_in_range[OF _ _ at]) simp_all
  have len_low: "\<forall>k<B. length (low_off ! k) = length (src_low ! k)"
    using low_offk lowk src_lowk by simp
  have len_up: "\<forall>k<B. length (up_off ! k) = length (src_up ! k)"
    using up_offk upk src_upk by simp
  have kA: "int (k * A) = int k * atoms_arg" for k using iA by simp
  have rng_low: "\<forall>k<B. \<forall>i\<in>set (low_off ! k). int (k * A) \<le> i \<and> i < int (k * A + A)"
  proof (intro allI impI ballI)
    fix k i assume k: "k < B" and "i \<in> set (low_off ! k)"
    then obtain p where "i = fst (bounds atoms_arg (gf k p)) + int k * atoms_arg"
      using low_offk[OF k] lowk[OF k] by auto
    then show "int (k * A) \<le> i \<and> i < int (k * A + A)" using bnd[of k p] kA[of k] iA by simp
  qed
  have rng_up: "\<forall>k<B. \<forall>i\<in>set (up_off ! k). int (k * A) \<le> i \<and> i < int (k * A + A)"
  proof (intro allI impI ballI)
    fix k i assume k: "k < B" and "i \<in> set (up_off ! k)"
    then obtain p where "i = snd (bounds atoms_arg (gf k p)) + int k * atoms_arg"
      using up_offk[OF k] upk[OF k] by auto
    then show "int (k * A) \<le> i \<and> i < int (k * A + A)" using bnd[of k p] kA[of k] iA by simp
  qed
  have mass: "sum_list (src_low ! k) + sum_list (src_up ! k) = 1" if k: "k < B" for k
  proof -
    have "\<forall>p\<in>set (pns_a ! k). real_of_int (snd (bounds atoms_arg (gf k p)))
            - real_of_int (fst (bounds atoms_arg (gf k p))) = 1"
    proof
      fix p
      have "snd (bounds atoms_arg (gf k p)) - fst (bounds atoms_arg (gf k p)) = 1" using bnd by simp
      then have "real_of_int (snd (bounds atoms_arg (gf k p)) - fst (bounds atoms_arg (gf k p))) = 1"
        by simp
      then show "real_of_int (snd (bounds atoms_arg (gf k p)))
            - real_of_int (fst (bounds atoms_arg (gf k p))) = 1" by simp
    qed
    from row_mass[OF this] show ?thesis using prow(2)[OF k] src_lowk[OF k] src_upk[OF k] by simp
  qed
  have r1: "\<forall>i\<in>set (concat low_off). 0 \<le> i \<and> i < int (length m0)"
    using concat_in_range[OF lens(5) rng_low] by (simp add: m0_def)
  have l1: "length (concat low_off) = length (concat src_low)"
    using length_concat_eq[of low_off src_low] lens len_low by simp
  from index_add_ok[OF r1 l1] obtain m1 where
    m1: "index_add m0 (concat low_off) (concat src_low) = Inr m1" "length m1 = length m0"
    and s1: "\<And>lo n. sum_list (take n (drop lo m1))
               = sum_list (take n (drop lo m0)) + seg_contrib lo n (concat low_off) (concat src_low)"
    by blast
  have r2: "\<forall>i\<in>set (concat up_off). 0 \<le> i \<and> i < int (length m1)"
    using concat_in_range[OF lens(6) rng_up] m1(2) by (simp add: m0_def)
  have l2: "length (concat up_off) = length (concat src_up)"
    using length_concat_eq[of up_off src_up] lens len_up by simp
  from index_add_ok[OF r2 l2] obtain m2 where
    m2: "index_add m1 (concat up_off) (concat src_up) = Inr m2" "length m2 = length m1"
    and s2: "\<And>lo n. sum_list (take n (drop lo m2))
               = sum_list (take n (drop lo m1)) + seg_contrib lo n (concat up_off) (concat src_up)"
    by blast
  have res: "project self reward_in not_done_in pns_a
             = Inr (map (\<lambda>r. take A (drop (r * A) m2)) [0 ..< B])"
    using proj m1(1) m2(1) by simp
  have rowsum: "sum_list (take A (drop (k * A) m2)) = 1" if k: "k < B" for k
  proof -
    have z: "sum_list (take A (drop (k * A) m0)) = 0" by (simp add: m0_def sum_list_replicate)
    have c1: "seg_contrib (k * A) A (concat low_off) (concat src_low) = sum_list (src_low ! k)"
      by (rule seg_contrib_rows[OF lens(5) lens(7) len_low rng_low k])
    have c2: "seg_contrib (k * A) A (concat up_off) (concat src_up) = sum_list (src_up ! k)"
      by (rule seg_contrib_rows[OF lens(6) lens(8) len_up rng_up k])
    show ?thesis unfolding s2 s1 z c1 c2 using mass[OF k] by simp
  qed
  have rowlen: "length (take A (drop (k * A) m2)) = A" if k: "k < B" for k
  proof -
    have "Suc k * A \<le> B * A" using k by (intro mult_le_mono1) simp
    then show ?thesis using m2(2) m1(2) by (simp add: m0_def)
  qed
  have "list_all (\<lambda>row. length row = nat atoms_arg \<and> sum_list row = 1)
          (map (\<lambda>r. take A (drop (r * A) m2)) [0 ..< B])"
    using rowsum rowlen by (simp add: list_all_iff A_def)
  then show ?thesis using res by (simp add: B_def)
qed

theorem project_conserves_mass_witness:
  "Rainbow_init 3 (- 1) 1 (1 / 2) 1 2 = Inr demo_rainbow
   \<and> (2::int) \<le> 3 \<and> (- 1 :: real) < 1 \<and> (0::int) \<le> 2
   \<and> length [[1 / 4, 1 / 2, 1 / 4], [1, 0, 0 :: real]] = nat 2
   \<and> length [0, 5 :: real] = nat 2 \<and> length [1, 0 :: real] = nat 2
   \<and> list_all (\<lambda>row. length row = nat 3 \<and> sum_list row = 1) [[1 / 4, 1 / 2, 1 / 4], [1, 0, 0 :: real]]
   \<and> project demo_rainbow [0, 5] [1, 0] [[1 / 4, 1 / 2, 1 / 4], [1, 0, 0]]
       = Inr [[0, 13 / 16, 3 / 16], [0, 0, 1]]
   \<and> list_all (\<lambda>row. length row = nat 3 \<and> sum_list row = 1) [[0, 13 / 16, 3 / 16], [0, 0, 1 :: real]]"
proof -
  have h: "(2::int) \<le> 3" "(- 1 :: real) < 1" "(0::int) \<le> 2"
    "length [[1 / 4, 1 / 2, 1 / 4], [1, 0, 0 :: real]] = nat 2"
    "length [0, 5 :: real] = nat 2" "length [1, 0 :: real] = nat 2"
    "list_all (\<lambda>row. length row = nat 3 \<and> sum_list row = 1) [[1 / 4, 1 / 2, 1 / 4], [1, 0, 0 :: real]]"
    by simp_all
  from project_conserves_mass[OF demo_rainbow_init h]
  show ?thesis using demo_rainbow_init demo_project h by auto
qed

text \<open>
  Claim C8, as stated, fails: \<^verbatim>\<open>SumTree.set\<close> checks neither argument. On the tree built
  for capacity 3 (four leaves) index 3, index \<open>-1\<close> and priority \<open>-1\<close> are all accepted.
\<close>

theorem SumTree_set_counterexample:
  "SumTree_init 3 = Inr \<lparr>nodes = [[0], [0, 0], [0, 0, 0, 0]]\<rparr>
   \<and> SumTree_set \<lparr>nodes = [[0], [0, 0], [0, 0, 0, 0]]\<rparr> 3 1 = Inr \<lparr>nodes = [[1], [0, 1], [0, 0, 0, 1]]\<rparr>
   \<and> SumTree_set \<lparr>nodes = [[0], [0, 0], [0, 0, 0, 0]]\<rparr> (- 1) 1 = Inr \<lparr>nodes = [[1], [0, 1], [0, 0, 0, 1]]\<rparr>
   \<and> SumTree_set \<lparr>nodes = [[0], [0, 0], [0, 0, 0, 0]]\<rparr> 0 (- 1) = Inr \<lparr>nodes = [[- 1], [- 1, 0], [- 1, 0, 0, 0]]\<rparr>"
  by code_simp

text \<open>
  Claim C8, amended. On a tree built for \<open>capacity\<close> slots and updated by in-range calls,
  whose leaf level has \<open>L = 2 ^ ceil_log2 capacity \<ge> capacity\<close> entries, \<^verbatim>\<open>set\<close> succeeds
  for every index in \<open>[-L, L)\<close>, so for every index in \<open>[0, capacity)\<close>, whatever the
  priority (negative ones included); for every other index it raises NumPy's
  \<^verbatim>\<open>IndexError\<close>.
\<close>

theorem SumTree_set_unchecked:
  assumes "SumTree_init capacity = Inr t0" and "list_all (op_in_range capacity) ops"
    and "run_ops t0 ops = Inr t" and "L = 2 ^ ceil_log2 (nat capacity)"
  shows "capacity \<le> L
    \<and> (if - L \<le> i \<and> i < L then \<exists>t'. SumTree_set t i p = Inr t'
        else SumTree_set t i p = Inl IndexError)"
proof -
  have ok: "sumtree_ok capacity t" by (rule SumTree_init_run_ok[OF assms(1-3)])
  have len: "int (length (leaves t)) = L" using ok assms(4) by (simp add: sumtree_ok_def)
  show ?thesis
    using sumtree_ok_cap[OF ok] SumTree_set_total[OF ok, of i p] SumTree_set_outside[OF ok, of i p] len
    by auto
qed

theorem SumTree_set_unchecked_witness:
  "SumTree_init 3 = Inr \<lparr>nodes = [[0], [0, 0], [0, 0, 0, 0]]\<rparr>
   \<and> list_all (op_in_range 3) [Set 0 2]
   \<and> run_ops \<lparr>nodes = [[0], [0, 0], [0, 0, 0, 0]]\<rparr> [Set 0 2] = Inr \<lparr>nodes = [[2], [2, 0], [2, 0, 0, 0]]\<rparr>
   \<and> (4::int) = 2 ^ ceil_log2 (nat 3)
   \<and> (\<exists>t'. SumTree_set \<lparr>nodes = [[2], [2, 0], [2, 0, 0, 0]]\<rparr> 1 (- 5) = Inr t')
   \<and> SumTree_set \<lparr>nodes = [[2], [2, 0], [2, 0, 0, 0]]\<rparr> 4 1 = Inl IndexError"
proof -
  have h1: "SumTree_init 3 = Inr \<lparr>nodes = [[0], [0, 0], [0, 0, 0, 0]]\<rparr>" by code_simp
  have h2: "list_all (op_in_range 3) [Set 0 2]" by simp
  have h3: "run_ops \<lparr>nodes = [[0], [0, 0], [0, 0, 0, 0]]\<rparr> [Set 0 2]
            = Inr \<lparr>nodes = [[2], [2, 0], [2, 0, 0, 0]]\<rparr>" by code_simp
  have h4: "(4::int) = 2 ^ ceil_log2 (nat 3)" by code_simp
  show ?thesis
    using SumTree_set_unchecked[OF h1 h2 h3 h4, of 1 "- 5"] SumTree_set_unchecked[OF h1 h2 h3 h4, of 4 1]
      h1 h2 h3 h4 by simp
qed

text \<open>
  Claim C9. After \<open>N\<close> prioritized \<^verbatim>\<open>sample\<close> calls that start from \<open>beta \<le> 1\<close>, \<open>beta\<close>
  equals \<open>min (beta + N * inc) 1\<close>, where \<open>inc\<close> is the increment \<^verbatim>\<open>2e-7\<close> of the
  source, and it never exceeds 1 (in exact arithmetic).
\<close>

theorem beta_annealing:
  assumes "prioritized self" and "beta self \<le> 1" and "sample_calls self draws = Inr self'"
  shows "beta self' = min (beta self + real (length draws) * beta_increment) 1 \<and> beta self' \<le> 1"
  using sample_calls_beta[OF assms] .

theorem beta_annealing_witness:
  "prioritized demo_per \<and> beta demo_per \<le> 1
   \<and> sample_calls demo_per [([1 / 2], []), ([1 / 2], [])]
       = Inr (demo_per\<lparr>beta := 4 / 10 + 2 * beta_increment\<rparr>)
   \<and> beta (demo_per\<lparr>beta := 4 / 10 + 2 * beta_increment\<rparr>)
       = min (beta demo_per + real (length [([1 / 2 :: real], []::int list), ([1 / 2], [])]) * beta_increment) 1
   \<and> beta (demo_per\<lparr>beta := 4 / 10 + 2 * beta_increment\<rparr>) \<le> 1"
proof -
  have h1: "prioritized demo_per" "beta demo_per \<le> 1" by (simp_all add: demo_per_def)
  have p: "prioritized (demo_per\<lparr>beta := x\<rparr>)" for x by (simp add: demo_per_def)
  have d: "demo_per = demo_per\<lparr>beta := 4 / 10\<rparr>" by (simp add: demo_per_def)
  have s1: "Buffer_sample demo_per [1 / 2] []
            = Inr (\<lparr>b_state = [10], b_action = [1], b_next_state = [11], b_reward = [5],
                    b_not_done = [1], b_seeds = [8], b_ind = [0], b_weights = [1]\<rparr>,
                  demo_per\<lparr>beta := 2 / 5 + beta_increment\<rparr>)"
    using demo_sample_1[OF p, of "2 / 5"] d by (simp add: beta_increment_def)
  have s2: "Buffer_sample (demo_per\<lparr>beta := 2 / 5 + beta_increment\<rparr>) [1 / 2] []
            = Inr (\<lparr>b_state = [10], b_action = [1], b_next_state = [11], b_reward = [5],
                    b_not_done = [1], b_seeds = [8], b_ind = [0], b_weights = [1]\<rparr>,
                  demo_per\<lparr>beta := 2 / 5 + 2 * beta_increment\<rparr>)"
    using demo_sample_1[OF p, of "2 / 5 + beta_increment"] by (simp add: beta_increment_def)
  have h3: "sample_calls demo_per [([1 / 2], []), ([1 / 2], [])]
       = Inr (demo_per\<lparr>beta := 4 / 10 + 2 * beta_increment\<rparr>)"
    by (simp add: s1 s2)
  show ?thesis using beta_annealing[OF h1 h3] h1 h3 by simp
qed



end
